theory Spec2Isabelle
  imports Complex_Main "HOL-Library.Sublist" "HOL-Library.AList" "HOL-Library.Multiset"
    "HOL-Library.Char_ord" "HOL-Library.List_Lexorder" "HOL-Library.Product_Lexorder"
    "HOL-Library.Log_Nat"
begin

section \<open>Strings as the scripts use them\<close>

text \<open>
  File names and file contents are Python \<open>str\<close> values.  They are modelled as
  \<open>string\<close>, one \<open>char\<close> per code point, which covers the code points 0 to 255
  (Latin-1).  On that range \<open>str.lower\<close> maps \<open>A\<close>..\<open>Z\<close> and the accented capitals
  \<open>0xC0\<close>..\<open>0xDE\<close> (without the multiplication sign \<open>0xD7\<close>) to the letter 32 places
  further on, and the regular-expression class \<open>\d\<close> is exactly \<open>0\<close>..\<open>9\<close>.
\<close>

definition lower_char :: "char \<Rightarrow> char" where
  "lower_char c =
     (let n = (of_char c :: nat) in
      if (65 \<le> n \<and> n \<le> 90) \<or> (192 \<le> n \<and> n \<le> 222 \<and> n \<noteq> 215)
      then char_of (n + 32) else c)"

definition str_lower :: "string \<Rightarrow> string" where
  "str_lower s = map lower_char s"

definition is_digit :: "char \<Rightarrow> bool" where
  "is_digit c = (let n = (of_char c :: nat) in 48 \<le> n \<and> n \<le> 57)"

text \<open>Python's \<open>p in s\<close> on strings: \<open>p\<close> occurs in \<open>s\<close> as a contiguous block.\<close>

fun str_contains :: "string \<Rightarrow> string \<Rightarrow> bool" where
  "str_contains p [] = (p = [])"
| "str_contains p (c # cs) = (prefix p (c # cs) \<or> str_contains p cs)"

text \<open>
  The characters \<open>str.strip()\<close> removes: those for which \<open>str.isspace\<close> holds, on the
  code points 0 to 255.
\<close>

definition is_space :: "char \<Rightarrow> bool" where
  "is_space c =
     (let n = (of_char c :: nat) in
      (9 \<le> n \<and> n \<le> 13) \<or> (28 \<le> n \<and> n \<le> 32) \<or> n = 133 \<or> n = 160)"

definition str_strip :: "string \<Rightarrow> string" where
  "str_strip s = rev (dropWhile is_space (rev (dropWhile is_space s)))"

text \<open>Python truthiness of a value that is \<open>None\<close> or a string.\<close>

fun truthy :: "string option \<Rightarrow> bool" where
  "truthy None = False"
| "truthy (Some s) = (s \<noteq> [])"

section \<open>Paths\<close>

text \<open>\<open>Path.name\<close>: the last component of a path.\<close>

definition path_name :: "string \<Rightarrow> string" where
  "path_name p = rev (takeWhile (\<lambda>c. c \<noteq> CHR ''/'') (rev p))"

text \<open>
  \<open>name.rfind('.')\<close>, and with it \<open>Path.stem\<close> and \<open>Path.suffix\<close> as pathlib
  computes them: the suffix starts at the last dot unless that dot is the first or the
  last character of the name.
\<close>

definition rfind_dot :: "string \<Rightarrow> nat option" where
  "rfind_dot name =
     (if CHR ''.'' \<in> set name
      then Some (length name - 1 - length (takeWhile (\<lambda>c. c \<noteq> CHR ''.'') (rev name)))
      else None)"

definition path_stem :: "string \<Rightarrow> string" where
  "path_stem p =
     (let name = path_name p in
      case rfind_dot name of
        None \<Rightarrow> name
      | Some i \<Rightarrow> if 0 < i \<and> i < length name - 1 then take i name else name)"

text \<open>\<open>Path.suffix\<close>, the counterpart of \<open>Path.stem\<close>.\<close>

definition path_suffix :: "string \<Rightarrow> string" where
  "path_suffix p =
     (let name = path_name p in
      case rfind_dot name of
        None \<Rightarrow> []
      | Some i \<Rightarrow> if 0 < i \<and> i < length name - 1 then drop i name else [])"

text \<open>\<open>os.path.join\<close> of two components on POSIX.\<close>

definition os_path_join :: "string \<Rightarrow> string \<Rightarrow> string" where
  "os_path_join a b =
     (if b \<noteq> [] \<and> hd b = CHR ''/'' then b
      else if a = [] \<or> last a = CHR ''/'' then a @ b
      else a @ ''/'' @ b)"

section \<open>organize\_files.py\<close>

text \<open>
  The two pattern dictionaries of \<open>FileOrganizer.__init__\<close>.  A Python dict iterates
  in insertion order, so each is an association list in the order of the literal.
\<close>

definition shot_patterns :: "(string \<times> string list) list" where
  "shot_patterns =
     [(''oneshot'', [''one-shot'', ''oneshot'', ''1-shot'', ''1shot'']),
      (''zeroshot'', [''zero-shot'', ''zeroshot'', ''0-shot'', ''0shot'']),
      (''fewshot'', [''few-shot'', ''fews-shot'', ''fewshot'', ''k-shot'', ''kshot''])]"

definition model_patterns :: "(string \<times> string list) list" where
  "model_patterns =
     [(''llama'', [''llama'', ''llama2'', ''llama-2'']),
      (''qwen'', [''qwen'', ''qwen-7b'', ''qwen-14b'']),
      (''chatgpt'', [''chatgpt'', ''chat'', ''gpt'', ''gpt-3.5'', ''gpt-4''])]"

text \<open>
  One of the two loops of \<open>determine_categories\<close>: walk the table in order and stop
  (\<open>break\<close>) at the first category one of whose patterns, lowercased, is contained in
  the lowercased file name; \<open>None\<close> when the loop runs to its end.
\<close>

fun find_category :: "(string \<times> string list) list \<Rightarrow> string \<Rightarrow> string option" where
  "find_category [] filename_lower = None"
| "find_category ((category, patterns) # rest) filename_lower =
     (if list_ex (\<lambda>pattern. str_contains (str_lower pattern) filename_lower) patterns
      then Some category
      else find_category rest filename_lower)"

definition determine_categories :: "string \<Rightarrow> string option \<times> string option" where
  "determine_categories filename =
     (let filename_lower = str_lower filename;
          shot_category = find_category shot_patterns filename_lower;
          model_category = find_category model_patterns filename_lower
      in (shot_category, model_category))"

text \<open>
  \<open>get_six_digit_number\<close>: \<open>re.search(r'\d{6}', filename)\<close> returns the leftmost
  position at which six digits follow one another, and the six characters there.
\<close>

fun get_six_digit_number :: "string \<Rightarrow> string option" where
  "get_six_digit_number [] = None"
| "get_six_digit_number (c # cs) =
     (if 6 \<le> length (c # cs) \<and> list_all is_digit (take 6 (c # cs))
      then Some (take 6 (c # cs))
      else get_six_digit_number cs)"

text \<open>
  What \<open>organize_files\<close> touches outside itself: \<open>copy_raises src dst\<close> says whether
  \<open>target_dir.mkdir\<close> or \<open>shutil.copy2\<close> raises for this file, and \<open>report_raises\<close>
  whether \<open>create_report\<close> (which opens \<open>organization_report.txt\<close> for writing, outside
  any \<open>try\<close>) raises.
\<close>

record organizer_env =
  copy_raises :: "string \<Rightarrow> string \<Rightarrow> bool"
  report_raises :: bool

text \<open>The log lines of \<open>organize_files\<close> that matter below.\<close>

datatype organizer_log =
    NoTextFiles
  | CouldNotClassify string
  | Moved string string string string
  | WouldMove string string string string
  | ErrorProcessing string
  | Summary nat nat nat

text \<open>
  The variables of \<open>organize_files\<close>.  \<open>stats\<close> is the nested dict of counts per shot
  and model category, \<open>stats_unclassified\<close> its entry \<open>'unclassified'\<close>, and \<open>copied\<close>
  lists the copies made, source and target.
\<close>

record organizer_state =
  successful_moves :: nat
  unclassified_files :: "string list"
  stats :: "string \<times> string \<Rightarrow> nat"
  stats_unclassified :: nat
  copied :: "(string \<times> string) list"
  organizer_logged :: "organizer_log list"

definition organizer_init :: organizer_state where
  "organizer_init =
     \<lparr>successful_moves = 0, unclassified_files = [], stats = (\<lambda>_. 0),
      stats_unclassified = 0, copied = [], organizer_logged = []\<rparr>"

text \<open>\<open>self.output_dir / shot_cat / model_cat / new_filename\<close>.\<close>

definition target_path :: "string \<Rightarrow> string \<Rightarrow> string \<Rightarrow> string \<Rightarrow> string" where
  "target_path output_dir shot_cat model_cat new_filename =
     output_dir @ ''/'' @ shot_cat @ ''/'' @ model_cat @ ''/'' @ new_filename"

text \<open>
  The body of the \<open>for file_path in text_files\<close> loop.  The \<open>except\<close> branch is
  reached only from \<open>mkdir\<close> / \<open>copy2\<close>; nothing before them can raise.
\<close>

definition organize_one ::
  "organizer_env \<Rightarrow> string \<Rightarrow> bool \<Rightarrow> organizer_state \<Rightarrow> string \<Rightarrow> organizer_state" where
  "organize_one env output_dir dry_run st file_path =
     (let name = path_name file_path;
          (shot_cat, model_cat) = determine_categories name;
          six_digit = get_six_digit_number name
      in if \<not> (truthy shot_cat \<and> truthy model_cat \<and> truthy six_digit)
         then st\<lparr>unclassified_files := unclassified_files st @ [file_path],
                 stats_unclassified := stats_unclassified st + 1,
                 organizer_logged := organizer_logged st @ [CouldNotClassify name]\<rparr>
         else
           let shot = the shot_cat; model = the model_cat;
               new_filename = the six_digit @ ''.txt'';
               target = target_path output_dir shot model new_filename
           in if \<not> dry_run
              then (if copy_raises env file_path target
                    then st\<lparr>unclassified_files := unclassified_files st @ [file_path],
                            stats_unclassified := stats_unclassified st + 1,
                            organizer_logged := organizer_logged st @ [ErrorProcessing name]\<rparr>
                    else st\<lparr>successful_moves := successful_moves st + 1,
                            stats := (stats st)((shot, model) := stats st (shot, model) + 1),
                            copied := copied st @ [(file_path, target)],
                            organizer_logged :=
                              organizer_logged st @ [Moved name shot model new_filename]\<rparr>)
              else st\<lparr>successful_moves := successful_moves st + 1,
                      stats := (stats st)((shot, model) := stats st (shot, model) + 1),
                      organizer_logged :=
                        organizer_logged st @ [WouldMove name shot model new_filename]\<rparr>)"

definition organize_loop ::
  "organizer_env \<Rightarrow> string \<Rightarrow> bool \<Rightarrow> string list \<Rightarrow> organizer_state" where
  "organize_loop env output_dir dry_run text_files =
     foldl (organize_one env output_dir dry_run) organizer_init text_files"

text \<open>An exception that leaves a method and is caught only by \<open>main\<close>.\<close>

datatype failure = UnhandledError

text \<open>
  \<open>organize_files\<close>: \<open>Inl\<close> is an exception leaving the method, \<open>Inr\<close> the returned
  boolean together with the final counters.
\<close>

definition organize_files ::
  "organizer_env \<Rightarrow> string \<Rightarrow> bool \<Rightarrow> string list \<Rightarrow> failure + (bool \<times> organizer_state)" where
  "organize_files env output_dir dry_run text_files =
     (if text_files = []
      then Inr (False, organizer_init\<lparr>organizer_logged := [NoTextFiles]\<rparr>)
      else
        let st = organize_loop env output_dir dry_run text_files;
            st' = st\<lparr>organizer_logged := organizer_logged st @
                     [Summary (length text_files) (successful_moves st) (stats_unclassified st)]\<rparr>
        in if \<not> dry_run \<and> report_raises env then Inl UnhandledError
           else Inr (successful_moves st' > 0, st'))"

text \<open>\<open>main\<close> of organize\_files.py after argument parsing: the exit status.\<close>

definition organizer_exit :: "organizer_env \<Rightarrow> string \<Rightarrow> bool \<Rightarrow> string list \<Rightarrow> nat" where
  "organizer_exit env output_dir dry_run text_files =
     (case organize_files env output_dir dry_run text_files of
        Inl _ \<Rightarrow> 1
      | Inr (success, _) \<Rightarrow> (if success then 0 else 1))"

subsection \<open>The classifier in the words of the specification\<close>

text \<open>
  The words of the specification for the classifier: a category is hit when one of its
  patterns is a case-insensitive substring of the file name, and the result is the first
  category of the table, in declaration order, that is hit (none when no category is).
\<close>

definition category_hit :: "string list \<Rightarrow> string \<Rightarrow> bool" where
  "category_hit patterns filename =
     (\<exists>p \<in> set patterns. sublist (str_lower p) (str_lower filename))"

definition first_declared :: "(string \<times> string list) list \<Rightarrow> string \<Rightarrow> string option \<Rightarrow> bool" where
  "first_declared tbl filename r =
     (case r of
        Some c \<Rightarrow> (\<exists>i < length tbl. fst (tbl ! i) = c \<and> category_hit (snd (tbl ! i)) filename
                      \<and> (\<forall>j < i. \<not> category_hit (snd (tbl ! j)) filename))
      | None \<Rightarrow> (\<forall>i < length tbl. \<not> category_hit (snd (tbl ! i)) filename))"

text \<open>Six digits in a row at offset \<open>k\<close> of a name.\<close>

definition six_digits_at :: "string \<Rightarrow> nat \<Rightarrow> bool" where
  "six_digits_at s k = (k + 6 \<le> length s \<and> list_all is_digit (take 6 (drop k s)))"

text \<open>
  The reading of the specification's ``first maximal run of exactly 6 consecutive
  digits'', for comparison with \<open>get_six_digit_number\<close>: split the name into its maximal
  runs of digits and take the first run whose length is 6.
\<close>

fun spec_digit_runs :: "string \<Rightarrow> string \<Rightarrow> string list" where
  "spec_digit_runs run [] = (if run = [] then [] else [run])"
| "spec_digit_runs run (c # cs) =
     (if is_digit c then spec_digit_runs (run @ [c]) cs
      else (if run = [] then [] else [run]) @ spec_digit_runs [] cs)"

definition spec_first_maximal_six_run :: "string \<Rightarrow> string option" where
  "spec_first_maximal_six_run filename =
     find (\<lambda>run. length run = 6) (spec_digit_runs [] filename)"

text \<open>Two environments: nothing raises; only writing the report raises.\<close>

definition no_failures :: organizer_env where
  "no_failures = \<lparr>copy_raises = (\<lambda>_ _. False), report_raises = False\<rparr>"

definition report_unwritable :: organizer_env where
  "report_unwritable = \<lparr>copy_raises = (\<lambda>_ _. False), report_raises = True\<rparr>"

section \<open>summaryExtractor.py\<close>

text \<open>
  \<open>get_document_number\<close>: \<open>re.match(r'^\d{6}$', basename)\<close>.  In Python \<open>$\<close> matches at
  the end of the string and also just before a line break that ends the string.
\<close>

definition get_document_number :: "string \<Rightarrow> string option" where
  "get_document_number filename =
     (let basename = path_stem filename in
      if (length basename = 6 \<and> list_all is_digit basename)
         \<or> (length basename = 7 \<and> list_all is_digit (take 6 basename)
              \<and> basename ! 6 = CHR 0x0A)
      then Some basename else None)"

text \<open>\<open>find_docx_files\<close>, applied to what the glob for \<open>*.docx\<close> returns.\<close>

definition find_docx_files :: "string list \<Rightarrow> string list" where
  "find_docx_files globbed = filter (\<lambda>f. truthy (get_document_number f)) globbed"

text \<open>
  The two helpers of \<open>DocumentProcessor\<close> that touch documents and files.  Each catches
  its own exceptions: \<open>extract_text_under_title\<close> returns the text and the title found,
  or nothing; \<open>save_extracted_text\<close> returns whether the file was written.
\<close>

record extractor_env =
  extract_text_under_title :: "string \<Rightarrow> string \<Rightarrow> (string \<times> string) option"
  save_extracted_text :: "string \<Rightarrow> string \<Rightarrow> string \<Rightarrow> string \<Rightarrow> bool"

text \<open>The body of the inner loop of \<open>process_documents\<close>, over the title patterns.\<close>

definition extract_one :: "extractor_env \<Rightarrow> string \<Rightarrow> nat \<Rightarrow> string \<Rightarrow> nat" where
  "extract_one env doc_path successful_extractions pattern =
     (case extract_text_under_title env doc_path pattern of
        None \<Rightarrow> successful_extractions
      | Some (extracted_text, found_title) \<Rightarrow>
          if extracted_text \<noteq> []
          then (if save_extracted_text env extracted_text found_title
                     (the (get_document_number doc_path)) (path_name doc_path)
                then successful_extractions + 1 else successful_extractions)
          else successful_extractions)"

text \<open>
  \<open>process_documents\<close>: the returned boolean and the number of successful
  extractions.  The method returns \<open>True\<close> whenever it found a document.
\<close>

definition process_documents ::
  "extractor_env \<Rightarrow> string list \<Rightarrow> string list \<Rightarrow> bool \<times> nat" where
  "process_documents env globbed patterns =
     (let doc_files = find_docx_files globbed in
      if doc_files = [] then (False, 0)
      else (True, foldl (\<lambda>n doc_path. foldl (extract_one env doc_path) n patterns) 0 doc_files))"

text \<open>\<open>main\<close> of summaryExtractor.py after argument parsing: the exit status.\<close>

definition extractor_exit :: "extractor_env \<Rightarrow> string list \<Rightarrow> string list \<Rightarrow> nat" where
  "extractor_exit env globbed patterns =
     (if fst (process_documents env globbed patterns) then 0 else 1)"

text \<open>A document reader that finds every title and a writer that never fails.\<close>

definition stub_extractor :: extractor_env where
  "stub_extractor =
     \<lparr>extract_text_under_title = (\<lambda>_ _. Some (''text'', ''Summary'')),
      save_extracted_text = (\<lambda>_ _ _ _. True)\<rparr>"

section \<open>summaryEvaluation.py: pairing generated and reference summaries\<close>

text \<open>
  The two filename patterns of \<open>read_summaries\<close>.  \<open>reference_pattern\<close> is
  \<open>(\d{6})\.txt$\<close> with \<open>search\<close>: the name ends with six digits and \<open>.txt\<close>;
  \<open>generated_pattern\<close> is \<open>^(\d{6})\.txt$\<close> with \<open>match\<close>: the name is six digits and
  \<open>.txt\<close>.  In both, \<open>$\<close> also matches just before a line break that ends the name.
  The result is the group, the six digits.
\<close>

definition ends_six_txt :: "string \<Rightarrow> string option" where
  "ends_six_txt s =
     (if 10 \<le> length s \<and> drop (length s - 4) s = ''.txt''
         \<and> list_all is_digit (take 6 (drop (length s - 10) s))
      then Some (take 6 (drop (length s - 10) s)) else None)"

definition before_final_newline :: "string \<Rightarrow> string" where
  "before_final_newline s = (if s \<noteq> [] \<and> last s = CHR 0x0A then butlast s else s)"

definition reference_identifier :: "string \<Rightarrow> string option" where
  "reference_identifier ref_file = ends_six_txt (before_final_newline ref_file)"

definition generated_identifier :: "string \<Rightarrow> string option" where
  "generated_identifier file =
     (if length (before_final_newline file) = 10
      then ends_six_txt (before_final_newline file) else None)"

text \<open>The messages \<open>read_summaries\<close> prints.\<close>

datatype reader_log =
    DuplicateReference string string
  | ReferenceSkipped string
  | UnexpectedStructure string
  | EmptyGenerated string
  | EmptyReference string
  | ReadError string
  | ReferenceNotFound string string

text \<open>
  The first loop, over \<open>os.listdir(reference_dir)\<close>.  \<open>reference_mapping\<close> is a dict:
  an association list in insertion order, where assigning to a key that is present
  replaces its value in place.
\<close>

definition add_reference ::
  "string \<Rightarrow> (string \<times> string) list \<times> reader_log list \<Rightarrow> string
     \<Rightarrow> (string \<times> string) list \<times> reader_log list" where
  "add_reference reference_dir acc ref_file =
     (case acc of (reference_mapping, out) \<Rightarrow>
        (case reference_identifier ref_file of
           Some identifier \<Rightarrow>
             (AList.update identifier (os_path_join reference_dir ref_file) reference_mapping,
              if map_of reference_mapping identifier \<noteq> None
              then out @ [DuplicateReference identifier ref_file] else out)
         | None \<Rightarrow> (reference_mapping, out @ [ReferenceSkipped ref_file])))"

definition scan_references ::
  "string \<Rightarrow> string list \<Rightarrow> (string \<times> string) list \<times> reader_log list" where
  "scan_references reference_dir listing = foldl (add_reference reference_dir) ([], []) listing"

text \<open>One entry of \<open>summary_pairs\<close>.\<close>

record summary_pair =
  Generated_Summary :: string
  Reference_Summary :: string
  Learning_Mode :: string
  Model :: string

text \<open>
  The file system as \<open>read_summaries\<close> sees it: \<open>os.path.exists\<close>, and opening and
  reading a file as UTF-8 (\<open>None\<close> when that raises).
\<close>

record reader_env =
  path_exists :: "string \<Rightarrow> bool"
  read_text :: "string \<Rightarrow> string option"

text \<open>
  \<open>os.walk(generated_base_dir)\<close> yields each directory below the base with its files.
  A directory is given by its components relative to the base, \<open>rel_dirs\<close>, so that
  \<open>path_parts\<close>, the split relative path of a file, is \<open>rel_dirs @ [file]\<close>.
\<close>

definition generated_path :: "string \<Rightarrow> string list \<Rightarrow> string \<Rightarrow> string" where
  "generated_path generated_base_dir rel_dirs file =
     os_path_join (foldl os_path_join generated_base_dir rel_dirs) file"

text \<open>
  The body of the second loop, for one file of one directory.  A file that is not in
  \<open><Learning_Mode>/<Model>/\<close> is announced as skipped but is processed with both
  labels \<open>Unknown\<close>.
\<close>

definition match_generated ::
  "reader_env \<Rightarrow> string \<Rightarrow> (string \<times> string) list \<Rightarrow> string list
     \<Rightarrow> summary_pair list \<times> reader_log list \<Rightarrow> string
     \<Rightarrow> summary_pair list \<times> reader_log list" where
  "match_generated env generated_base_dir reference_mapping rel_dirs acc file =
     (case acc of (summary_pairs, out) \<Rightarrow>
        (case generated_identifier file of
           None \<Rightarrow> (summary_pairs, out)
         | Some identifier \<Rightarrow>
             let gen_path = generated_path generated_base_dir rel_dirs file;
                 path_parts = rel_dirs @ [file];
                 out1 = (if length path_parts < 3
                         then out @ [UnexpectedStructure gen_path] else out);
                 learning_mode = (if length path_parts < 3 then ''Unknown'' else path_parts ! 0);
                 model = (if length path_parts < 3 then ''Unknown'' else path_parts ! 1)
             in (case map_of reference_mapping identifier of
                   None \<Rightarrow> (summary_pairs, out1 @ [ReferenceNotFound identifier gen_path])
                 | Some ref_path \<Rightarrow>
                     if ref_path \<noteq> [] \<and> path_exists env ref_path
                     then (case read_text env gen_path of
                             None \<Rightarrow> (summary_pairs, out1 @ [ReadError identifier])
                           | Some generated_text \<Rightarrow>
                              (case read_text env ref_path of
                                 None \<Rightarrow> (summary_pairs, out1 @ [ReadError identifier])
                               | Some reference_text \<Rightarrow>
                                   let generated_summary = str_strip generated_text;
                                       reference_summary = str_strip reference_text
                                   in if generated_summary = []
                                      then (summary_pairs, out1 @ [EmptyGenerated gen_path])
                                      else if reference_summary = []
                                      then (summary_pairs, out1 @ [EmptyReference ref_path])
                                      else (summary_pairs @
                                              [\<lparr>Generated_Summary = generated_summary,
                                                Reference_Summary = reference_summary,
                                                Learning_Mode = learning_mode,
                                                Model = model\<rparr>], out1)))
                     else (summary_pairs, out1 @ [ReferenceNotFound identifier gen_path]))))"

definition walk_generated ::
  "reader_env \<Rightarrow> string \<Rightarrow> (string \<times> string) list \<Rightarrow> (string list \<times> string list) list
     \<Rightarrow> summary_pair list \<times> reader_log list \<Rightarrow> summary_pair list \<times> reader_log list" where
  "walk_generated env generated_base_dir reference_mapping walk acc =
     foldl (\<lambda>acc (rel_dirs, files).
              foldl (match_generated env generated_base_dir reference_mapping rel_dirs) acc files)
       acc walk"

text \<open>\<open>read_summaries\<close>: the pairs returned and the messages printed.\<close>

definition read_summaries ::
  "reader_env \<Rightarrow> string \<Rightarrow> string list \<Rightarrow> string \<Rightarrow> (string list \<times> string list) list
     \<Rightarrow> summary_pair list \<times> reader_log list" where
  "read_summaries env reference_dir listing generated_base_dir walk =
     (case scan_references reference_dir listing of (reference_mapping, out) \<Rightarrow>
        walk_generated env generated_base_dir reference_mapping walk ([], out))"

text \<open>Every path exists and reads as a short text with blanks around it.\<close>

definition all_readable :: reader_env where
  "all_readable =
     \<lparr>path_exists = (\<lambda>_. True),
      read_text = (\<lambda>p. Some (''  summary of '' @ p @ [CHR 0x0A]))\<rparr>"

text \<open>
  A reference directory with the ids 100001 and 100002 and a generated tree with
  \<open>oneshot/llama/100001.txt\<close> and \<open>oneshot/llama/999999.txt\<close>, as \<open>os.walk\<close> lists it.
\<close>

definition example_listing :: "string list" where
  "example_listing = [''ref_100001.txt'', ''ref_100002.txt'']"

definition example_walk :: "(string list \<times> string list) list" where
  "example_walk =
     [([], []), ([''oneshot''], []),
      ([''oneshot'', ''llama''], [''100001.txt'', ''999999.txt''])]"

text \<open>The same files, but the generated summary of 100001 is blank.\<close>

definition blank_generated :: reader_env where
  "blank_generated =
     \<lparr>path_exists = (\<lambda>_. True),
      read_text = (\<lambda>p. if p = ''gen/oneshot/llama/100001.txt''
                         then Some ('' '' @ [CHR 0x0A]) else Some ''reference text'')\<rparr>"

section \<open>rename\_files.py\<close>

text \<open>
  The collaborators of \<open>FileRenamer\<close>.  \<open>re_sub\<close> is \<open>re.sub(pattern, replacement, _)\<close>
  for the pattern and replacement of the run (\<open>None\<close> when it raises, as for a
  replacement that names a group the pattern does not have); \<open>output_path\<close> is
  \<open>self.output_dir / new_name\<close>, a \<open>Path\<close>, whose equality is that of the type \<open>'p\<close>;
  the three flags say when \<open>mkdir\<close>, \<open>relative_to\<close> and \<open>shutil.copy2\<close> raise.
\<close>

record 'p renamer_env =
  re_sub :: "string \<Rightarrow> string option"
  output_path :: "string \<Rightarrow> 'p"
  mkdir_raises :: bool
  relative_to_raises :: "string \<Rightarrow> 'p \<Rightarrow> bool"
  copy2_raises :: "string \<Rightarrow> 'p \<Rightarrow> bool"

text \<open>What a run may change under the output directory.\<close>

record 'p output_state =
  output_dir_created :: bool
  copied_files :: "(string \<times> 'p) list"

text \<open>\<open>generate_new_name\<close>; \<open>None\<close> when \<open>re.sub\<close> raises.\<close>

definition generate_new_name :: "'p renamer_env \<Rightarrow> bool \<Rightarrow> string \<Rightarrow> string option" where
  "generate_new_name env preserve_extension filepath =
     (if preserve_extension
      then (case re_sub env (path_stem filepath) of
              None \<Rightarrow> None
            | Some new_stem \<Rightarrow> Some (new_stem @ path_suffix filepath))
      else re_sub env (path_name filepath))"

text \<open>Why the first pass stopped.\<close>

datatype renamer_log = NamingConflict string | ErrorProcessingFile string

text \<open>
  First pass: build \<open>rename_map\<close>; \<open>Inl\<close> is the \<open>return False\<close> of a naming conflict or
  of the \<open>except\<close> branch.
\<close>

fun first_pass ::
  "'p renamer_env \<Rightarrow> bool \<Rightarrow> string list \<Rightarrow> (string \<times> 'p) list
     \<Rightarrow> renamer_log + (string \<times> 'p) list" where
  "first_pass env preserve_extension [] rename_map = Inr rename_map"
| "first_pass env preserve_extension (filepath # rest) rename_map =
     (case generate_new_name env preserve_extension filepath of
        None \<Rightarrow> Inl (ErrorProcessingFile filepath)
      | Some new_name \<Rightarrow>
          let new_path = output_path env new_name in
          if new_path \<in> set (map snd rename_map) then Inl (NamingConflict new_name)
          else first_pass env preserve_extension rest
                 (AList.update filepath new_path rename_map))"

text \<open>
  Second pass: \<open>relative_to\<close> stands outside the \<open>try\<close>, the copy inside it.
\<close>

fun second_pass ::
  "'p renamer_env \<Rightarrow> bool \<Rightarrow> (string \<times> 'p) list \<Rightarrow> nat \<times> 'p output_state
     \<Rightarrow> (failure + nat) \<times> 'p output_state" where
  "second_pass env dry_run [] (successful_renames, fs) = (Inr successful_renames, fs)"
| "second_pass env dry_run ((old_path, new_path) # rest) (successful_renames, fs) =
     (if relative_to_raises env old_path new_path then (Inl UnhandledError, fs)
      else if dry_run then second_pass env dry_run rest (successful_renames + 1, fs)
      else if copy2_raises env old_path new_path
      then second_pass env dry_run rest (successful_renames, fs)
      else second_pass env dry_run rest
             (successful_renames + 1,
              fs\<lparr>copied_files := copied_files fs @ [(old_path, new_path)]\<rparr>))"

text \<open>
  \<open>rename_files\<close>: what is returned or raised, and the output state afterwards.
  \<open>mkdir\<close> stands between the passes, outside any \<open>try\<close>.
\<close>

definition rename_files ::
  "'p renamer_env \<Rightarrow> bool \<Rightarrow> bool \<Rightarrow> string list \<Rightarrow> 'p output_state
     \<Rightarrow> (failure + bool) \<times> 'p output_state" where
  "rename_files env preserve_extension dry_run files fs =
     (if files = [] then (Inr False, fs)
      else
        (case first_pass env preserve_extension files [] of
           Inl _ \<Rightarrow> (Inr False, fs)
         | Inr rename_map \<Rightarrow>
            if \<not> dry_run \<and> mkdir_raises env then (Inl UnhandledError, fs)
            else
              let fs1 = (if \<not> dry_run then fs\<lparr>output_dir_created := True\<rparr> else fs) in
              (case second_pass env dry_run rename_map (0, fs1) of
                 (Inl e, fs2) \<Rightarrow> (Inl e, fs2)
               | (Inr successful_renames, fs2) \<Rightarrow> (Inr (successful_renames > 0), fs2))))"

text \<open>Two input files would be renamed to the same output path.\<close>

definition naming_conflict :: "'p renamer_env \<Rightarrow> bool \<Rightarrow> string list \<Rightarrow> bool" where
  "naming_conflict env preserve_extension files =
     (\<exists>i j a b. i < j \<and> j < length files
        \<and> generate_new_name env preserve_extension (files ! i) = Some a
        \<and> generate_new_name env preserve_extension (files ! j) = Some b
        \<and> output_path env a = output_path env b)"

text \<open>Every entry of the rename map is a file with the output path computed for it.\<close>

definition map_agrees :: "'p renamer_env \<Rightarrow> bool \<Rightarrow> (string \<times> 'p) list \<Rightarrow> bool" where
  "map_agrees env preserve_extension rename_map =
     (\<forall>(k, v) \<in> set rename_map.
        \<exists>n. generate_new_name env preserve_extension k = Some n \<and> v = output_path env n)"

text \<open>A run that deletes the digits of each stem (\<open>-p "\d+" -r ""\<close>).\<close>

definition drop_digits :: "string renamer_env" where
  "drop_digits =
     \<lparr>re_sub = (\<lambda>s. Some (filter (\<lambda>c. \<not> is_digit c) s)),
      output_path = (\<lambda>n. ''out/'' @ n),
      mkdir_raises = False,
      relative_to_raises = (\<lambda>_ _. False),
      copy2_raises = (\<lambda>_ _. False)\<rparr>"

definition untouched :: "string output_state" where
  "untouched = \<lparr>output_dir_created = False, copied_files = []\<rparr>"

section \<open>AutomaticMetric.py: the ranking loop\<close>

text \<open>
  The keys shared by the records of AutomaticMetric.py and countHallucination.py.
\<close>

record located =
  learning_model :: string
  model :: string
  file_name :: string
  file_path :: string

text \<open>
  One entry of \<open>results\<close>.  Scores are Python floats; they are modelled as rationals
  (every finite float is one), with \<open>sum\<close> as exact addition.  The ranking reads the
  stored sum only and compares it, so no result below depends on how it was rounded.
  \<open>rank\<close> is absent until the ranking loop sets it.
\<close>

record metric_result = located +
  reference_file :: string
  scores :: "(string \<times> rat) list"
  scores_sum :: rat
  rank :: "nat option"

text \<open>The dict appended to \<open>results\<close> for one target file and one reference file.\<close>

definition make_result ::
  "string \<Rightarrow> string \<Rightarrow> string \<Rightarrow> string \<Rightarrow> string \<Rightarrow> (string \<times> rat) list \<Rightarrow> metric_result" where
  "make_result sub_dir parent_dir filename target_file ref_file score_data =
     \<lparr>learning_model = sub_dir, model = parent_dir, file_name = filename,
      file_path = target_file, reference_file = ref_file, scores = score_data,
      scores_sum = sum_list (map snd score_data), rank = None\<rparr>"

text \<open>
  \<open>sorted(results, key=lambda x: x['sum'], reverse=True)\<close> is stable: records with equal
  sums keep their order.  The sorted list holds the very objects of \<open>results\<close>, so it is
  given by their indices, and \<open>result['rank'] = idx\<close> writes into \<open>results\<close> at that index.
\<close>

definition rank_order :: "metric_result list \<Rightarrow> nat list" where
  "rank_order results = sort_key (\<lambda>i. - scores_sum (results ! i)) [0..<length results]"

definition assign_rank :: "metric_result list \<Rightarrow> nat \<times> nat \<Rightarrow> metric_result list" where
  "assign_rank results p = (case p of (idx, i) \<Rightarrow> results[i := (results ! i)\<lparr>rank := Some idx\<rparr>])"

definition rank_results :: "metric_result list \<Rightarrow> metric_result list" where
  "rank_results results =
     foldl assign_rank results (zip [1..<Suc (length results)] (rank_order results))"

text \<open>
  The order the ranking puts two indices in: smaller key first, and for equal keys the
  smaller index first.
\<close>

definition before_in_rank :: "(nat \<Rightarrow> rat) \<Rightarrow> nat \<Rightarrow> nat \<Rightarrow> bool" where
  "before_in_rank key i j = (key i < key j \<or> (key i = key j \<and> i < j))"

text \<open>Three results with the sums 9/10, 11/10 and 9/10.\<close>

definition three_results :: "metric_result list" where
  "three_results =
     [make_result ''llama'' ''oneshot'' ''100001.txt'' ''oneshot/llama/100001.txt'' ''ref/100001.txt''
        [(''BLEU'', 1/2), (''METEOR'', 2/5)],
      make_result ''qwen'' ''oneshot'' ''100001.txt'' ''oneshot/qwen/100001.txt'' ''ref/100001.txt''
        [(''BLEU'', 3/5), (''METEOR'', 1/2)],
      make_result ''chatgpt'' ''oneshot'' ''100001.txt'' ''oneshot/chatgpt/100001.txt'' ''ref/100001.txt''
        [(''BLEU'', 2/5), (''METEOR'', 1/2)]]"

section \<open>Double-precision arithmetic\<close>

text \<open>
  pandas and NumPy compute in IEEE 754 binary64 with rounding to nearest, ties to even.
  A finite double is the rational it denotes.  \<open>log2_floor x\<close> is the exponent of a
  positive \<open>x\<close>: the integer \<open>k\<close> with \<open>2 ^ k \<le> x < 2 ^ (k + 1)\<close>.
\<close>

definition log2_floor :: "rat \<Rightarrow> int" where
  "log2_floor x = (if 1 \<le> x then bitlen \<lfloor>x\<rfloor> - 1 else - bitlen (\<lceil>1 / x\<rceil> - 1))"

text \<open>The nearest integer, the even one of two that are equally near.\<close>

definition round_half_even :: "rat \<Rightarrow> int" where
  "round_half_even y =
     (let f = \<lfloor>y\<rfloor>; d = y - of_int f in
      if d < 1 / 2 then f else if 1 / 2 < d then f + 1 else if even f then f else f + 1)"

text \<open>
  Rounding to a double: a positive \<open>x\<close> is scaled so that 53 bits stand before the
  point (fewer below the normal range, where the spacing stays \<open>2 ^ - 1074\<close>), rounded
  to an integer and scaled back.
\<close>

definition round_double_pos :: "rat \<Rightarrow> rat" where
  "round_double_pos x =
     (let e = max (log2_floor x - 52) (- 1074)
      in of_int (round_half_even (x / 2 powi e)) * 2 powi e)"

definition round_double :: "rat \<Rightarrow> rat" where
  "round_double x =
     (if x = 0 then 0 else if 0 < x then round_double_pos x else - round_double_pos (- x))"

text \<open>
  A rounded value of magnitude \<open>2 ^ 1024\<close> or more overflows to an infinity.
  \<open>to_double\<close> is the result of an operation whose exact value is \<open>x\<close>; \<open>None\<close> stands
  for a result that is not finite (an infinity or NaN).
\<close>

definition finite_double :: "rat \<Rightarrow> bool" where
  "finite_double r = (r = 0 \<or> log2_floor \<bar>r\<bar> < 1024)"

definition to_double :: "rat \<Rightarrow> rat option" where
  "to_double x = (let r = round_double x in if finite_double r then Some r else None)"

definition double_div :: "rat \<Rightarrow> rat \<Rightarrow> rat option" where
  "double_div a b = (if b = 0 then None else to_double (a / b))"

definition double_mul :: "rat \<Rightarrow> rat \<Rightarrow> rat option" where
  "double_mul a b = to_double (a * b)"

text \<open>The smallest positive normal double.\<close>

definition smallest_normal :: rat where
  "smallest_normal = 2 powi (- 1022)"

section \<open>countHallucination.py\<close>

text \<open>
  The annotation tags of \<open>HallucinationAnalyzer.__init__\<close>, in the order of the dict.
\<close>

datatype hall_type = UCE | OGE | UGE | NNE | DTE | MGE

definition hallucination_types :: "hall_type list" where
  "hallucination_types = [UCE, OGE, UGE, NNE, DTE, MGE]"

text \<open>The text each pattern matches.\<close>

fun tag :: "hall_type \<Rightarrow> string" where
  "tag UCE = ''[UCE]''"
| "tag OGE = ''[OGE]''"
| "tag UGE = ''[UGE]''"
| "tag NNE = ''[NNE]''"
| "tag DTE = ''[DTE]''"
| "tag MGE = ''[MGE]''"

text \<open>
  \<open>len(re.findall(pattern, text))\<close> for a tag: the occurrences found from left to
  right, the search resuming behind each match (\<open>skip\<close> counts the characters of a
  match still to pass).
\<close>

fun count_from :: "nat \<Rightarrow> string \<Rightarrow> string \<Rightarrow> nat" where
  "count_from skip pat [] = 0"
| "count_from skip pat (c # cs) =
     (if 0 < skip then count_from (skip - 1) pat cs
      else if prefix pat (c # cs) then 1 + count_from (length pat - 1) pat cs
      else count_from 0 pat cs)"

text \<open>\<open>count_hallucinations\<close>: every type gets a count.\<close>

definition count_hallucinations :: "string \<Rightarrow> hall_type \<Rightarrow> nat option" where
  "count_hallucinations text hall = Some (count_from 0 (tag hall) text)"

text \<open>
  \<open>analyze_file\<close>: the six counts, or an empty \<open>defaultdict\<close> when the file cannot be
  read; a key that is missing becomes NaN in the data frame, here \<open>None\<close>.
\<close>

definition analyze_file :: "(string \<Rightarrow> string option) \<Rightarrow> string \<Rightarrow> hall_type \<Rightarrow> nat option" where
  "analyze_file read_file p =
     (case read_file p of
        Some content \<Rightarrow> count_hallucinations content
      | None \<Rightarrow> (\<lambda>_. None))"

text \<open>
  A \<open>result\<close> dict of \<open>analyze_directories\<close>, and a row of the data frame once the
  column \<open>total_hallucinations\<close> is there.
\<close>

record hall_result = located +
  counts :: "hall_type \<Rightarrow> nat option"

record hall_row = hall_result +
  total_hallucinations :: nat

text \<open>
  The three nested loops of \<open>analyze_directories\<close> over the directory tree, given as
  the learning-model directories, their model directories, and the \<open>.txt\<close> files there.
\<close>

definition results_of ::
  "(string \<Rightarrow> string option) \<Rightarrow> (string \<times> (string \<times> string list) list) list \<Rightarrow> hall_result list" where
  "results_of read_file tree =
     concat (map (\<lambda>(lm, model_dirs).
       concat (map (\<lambda>(m, text_files).
         map (\<lambda>name.
             \<lparr>learning_model = lm, model = m, file_name = path_stem name,
              file_path = lm @ ''/'' @ m @ ''/'' @ name,
              counts = analyze_file read_file (lm @ ''/'' @ m @ ''/'' @ name)\<rparr>)
           text_files) model_dirs)) tree)"

text \<open>pandas sums skip NaN.\<close>

definition skipna :: "nat option \<Rightarrow> nat" where
  "skipna v = (case v of Some n \<Rightarrow> n | None \<Rightarrow> 0)"

text \<open>
  The row sum over the six count columns (\<open>sum(axis=1)\<close>), the column
  \<open>total_hallucinations\<close>.
\<close>

definition with_total :: "hall_result \<Rightarrow> hall_row" where
  "with_total r =
     \<lparr>learning_model = learning_model r, model = model r, file_name = file_name r,
      file_path = file_path r, counts = counts r,
      total_hallucinations =
        sum_list (map (\<lambda>hall. skipna (counts r hall)) hallucination_types)\<rparr>"

text \<open>
  \<open>df.sort_values(['learning_model', 'model', 'file_name'])\<close>; strings compare
  lexicographically by code point.
\<close>

definition sort_values :: "hall_row list \<Rightarrow> hall_row list" where
  "sort_values df = sort_key (\<lambda>r. (learning_model r, model r, file_name r)) df"

text \<open>
  The aggregations \<open>mean\<close> and \<open>std\<close> are pandas' own and compute in floating point;
  they are parameters, applied to a group's column in row order.  Sums of counts are
  integers.
\<close>

record 'f pandas_agg =
  agg_mean :: "nat option list \<Rightarrow> 'f"
  agg_std :: "nat option list \<Rightarrow> 'f"

text \<open>
  A row of \<open>group_summary\<close>: per type the sum, mean and standard deviation, the same
  for the totals, the number of files, and per type the percentage of the total.
\<close>

record 'f summary_row =
  group_key :: "string \<times> string"
  type_sum :: "hall_type \<Rightarrow> nat"
  type_mean :: "hall_type \<Rightarrow> 'f"
  type_std :: "hall_type \<Rightarrow> 'f"
  total_hallucinations_sum :: nat
  total_hallucinations_mean :: 'f
  total_hallucinations_std :: 'f
  total_files :: nat
  type_percentage :: "hall_type \<Rightarrow> rat option"

text \<open>
  \<open>group_summary[f'{hall_type}_sum'] / group_summary['total_hallucinations_sum'] * 100\<close>
  for one group: both sums are converted to doubles, the quotient is rounded, and the
  product with 100 is rounded again.  A total of 0 gives NaN or an infinity.
\<close>

definition percentage :: "nat \<Rightarrow> nat \<Rightarrow> rat option" where
  "percentage part whole =
     (case (to_double (of_nat part), to_double (of_nat whole)) of
        (Some a, Some b) \<Rightarrow>
          (case double_div a b of Some q \<Rightarrow> double_mul q 100 | None \<Rightarrow> None)
      | _ \<Rightarrow> None)"

definition summarize_group :: "'f pandas_agg \<Rightarrow> string \<times> string \<Rightarrow> hall_row list \<Rightarrow> 'f summary_row" where
  "summarize_group pd key grp =
     \<lparr>group_key = key,
      type_sum = (\<lambda>hall. sum_list (map (\<lambda>r. skipna (counts r hall)) grp)),
      type_mean = (\<lambda>hall. agg_mean pd (map (\<lambda>r. counts r hall) grp)),
      type_std = (\<lambda>hall. agg_std pd (map (\<lambda>r. counts r hall) grp)),
      total_hallucinations_sum = sum_list (map total_hallucinations grp),
      total_hallucinations_mean = agg_mean pd (map (\<lambda>r. Some (total_hallucinations r)) grp),
      total_hallucinations_std = agg_std pd (map (\<lambda>r. Some (total_hallucinations r)) grp),
      total_files = length grp,
      type_percentage = (\<lambda>hall. percentage (sum_list (map (\<lambda>r. skipna (counts r hall)) grp))
                                     (sum_list (map total_hallucinations grp)))\<rparr>"

text \<open>
  \<open>create_summary\<close>: \<open>groupby(['learning_model', 'model'])\<close> lists the groups in the
  order of their keys.
\<close>

definition create_summary :: "'f pandas_agg \<Rightarrow> hall_row list \<Rightarrow> 'f summary_row list" where
  "create_summary pd df =
     map (\<lambda>key. summarize_group pd key
                  (filter (\<lambda>r. (learning_model r, model r) = key) df))
       (sort (remdups (map (\<lambda>r. (learning_model r, model r)) df)))"

text \<open>The ways \<open>analyze_directories\<close> ends without tables.\<close>

datatype analysis_failure = NoSubdirectories | NoFilesProcessed | KeyError

text \<open>
  \<open>analyze_directories\<close> from the tree to the two tables.  Selecting the six columns
  raises \<open>KeyError\<close> when no file at all could be read.
\<close>

definition analyze_directories ::
  "'f pandas_agg \<Rightarrow> (string \<Rightarrow> string option) \<Rightarrow> (string \<times> (string \<times> string list) list) list
     \<Rightarrow> analysis_failure + (hall_row list \<times> 'f summary_row list)" where
  "analyze_directories pd read_file tree =
     (if tree = [] then Inl NoSubdirectories
      else
        let results = results_of read_file tree in
        if results = [] then Inl NoFilesProcessed
        else if \<forall>r \<in> set results. \<forall>hall \<in> set hallucination_types. counts r hall = None
        then Inl KeyError
        else
          let df = sort_values (map with_total results)
          in Inr (df, create_summary pd df))"

text \<open>
  The six per-type counts of a row, and the exact sum of the six percentage columns of a
  group as they are written.
\<close>

definition six_counts :: "hall_row \<Rightarrow> nat" where
  "six_counts r =
     skipna (counts r UCE) + skipna (counts r OGE) + skipna (counts r UGE)
       + skipna (counts r NNE) + skipna (counts r DTE) + skipna (counts r MGE)"

definition six_percentages :: "'f summary_row \<Rightarrow> rat" where
  "six_percentages g =
     the (type_percentage g UCE) + the (type_percentage g OGE) + the (type_percentage g UGE)
       + the (type_percentage g NNE) + the (type_percentage g DTE) + the (type_percentage g MGE)"

text \<open>The columns of a row that \<open>create_summary\<close> reads.\<close>

definition summary_input ::
  "hall_row \<Rightarrow> string \<times> string \<times> (hall_type \<Rightarrow> nat option) \<times> nat" where
  "summary_input r = (learning_model r, model r, counts r, total_hallucinations r)"

text \<open>Aggregations that return nothing, for runs where only sums and shares are read.\<close>

definition no_agg :: "unit pandas_agg" where
  "no_agg = \<lparr>agg_mean = (\<lambda>_. ()), agg_std = (\<lambda>_. ())\<rparr>"

text \<open>A tree with three files, one of them unreadable.\<close>

definition two_files :: "string \<Rightarrow> string option" where
  "two_files p =
     (if p = ''oneshot/llama/100001.txt'' then Some ''a [UCE] b [UCE][OGE] c''
      else if p = ''oneshot/llama/100002.txt'' then Some ''[MGE] only''
      else None)"

definition small_tree :: "(string \<times> (string \<times> string list) list) list" where
  "small_tree = [(''zeroshot'', [(''qwen'', [''100003.txt''])]),
                 (''oneshot'', [(''llama'', [''100002.txt'', ''100001.txt''])])]"

text \<open>One file with two \<open>[UCE]\<close> and one \<open>[MGE]\<close>: shares of two thirds and one third.\<close>

definition thirds_file :: "string \<Rightarrow> string option" where
  "thirds_file p = Some ''x [UCE] y [UCE] z [MGE]''"

definition thirds_tree :: "(string \<times> (string \<times> string list) list) list" where
  "thirds_tree = [(''oneshot'', [(''llama'', [''100001.txt''])])]"

text \<open>
  How far the six percentages together may be from 100: each is rounded twice, with a
  relative error of at most \<open>2 ^ - 53\<close> each time.
\<close>

definition rounding_slack :: rat where
  "rounding_slack = 100 * (2 / 2 ^ 53 + 1 / 2 ^ 106)"

section \<open>Verified properties\<close>

subsection \<open>Filename classifier\<close>

lemma str_contains_sublist: "str_contains p s = sublist p s"
  by (induction s) (auto simp: sublist_Cons_right)

lemma find_category_first_declared:
  "first_declared tbl filename (find_category tbl (str_lower filename))"
proof (induction tbl)
  case Nil
  show ?case by (simp add: first_declared_def)
next
  case (Cons a tbl)
  obtain c ps where a: "a = (c, ps)" by (cases a)
  show ?case
  proof (cases "category_hit ps filename")
    case True
    then have "find_category (a # tbl) (str_lower filename) = Some c"
      by (simp add: a category_hit_def list_ex_iff str_contains_sublist)
    moreover have "first_declared (a # tbl) filename (Some c)"
      unfolding first_declared_def using True a by (auto intro!: exI[of _ 0])
    ultimately show ?thesis by simp
  next
    case False
    then have eq: "find_category (a # tbl) (str_lower filename) = find_category tbl (str_lower filename)"
      by (simp add: a category_hit_def list_ex_iff str_contains_sublist)
    show ?thesis
    proof (cases "find_category tbl (str_lower filename)")
      case None
      with Cons.IH have "\<forall>i < length tbl. \<not> category_hit (snd (tbl ! i)) filename"
        by (simp add: first_declared_def)
      with False a have "\<forall>i < length (a # tbl). \<not> category_hit (snd ((a # tbl) ! i)) filename"
        by (auto simp: nth_Cons split: nat.splits)
      with None eq show ?thesis by (simp add: first_declared_def)
    next
      case (Some d)
      with Cons.IH obtain i where i: "i < length tbl" "fst (tbl ! i) = d"
        "category_hit (snd (tbl ! i)) filename" "\<forall>j < i. \<not> category_hit (snd (tbl ! j)) filename"
        by (auto simp: first_declared_def)
      have "\<forall>j < Suc i. \<not> category_hit (snd ((a # tbl) ! j)) filename"
        using i(4) False a by (auto simp: nth_Cons split: nat.splits)
      with i(1-3) have "\<exists>k < length (a # tbl). fst ((a # tbl) ! k) = d
          \<and> category_hit (snd ((a # tbl) ! k)) filename
          \<and> (\<forall>j < k. \<not> category_hit (snd ((a # tbl) ! j)) filename)"
        by (intro exI[of _ "Suc i"]) simp
      with Some eq show ?thesis by (simp add: first_declared_def)
    qed
  qed
qed

lemma str_lower_oneshot: "str_lower ''oneshot'' = ''oneshot''"
  by code_simp

lemma oneshot_wins:
  assumes "sublist ''oneshot'' (str_lower filename)"
  shows "find_category shot_patterns (str_lower filename) = Some ''oneshot''"
proof -
  have "str_contains (str_lower ''oneshot'') (str_lower filename)"
    using assms by (simp add: str_contains_sublist str_lower_oneshot)
  then show ?thesis by (simp add: shot_patterns_def)
qed

text \<open>
  Claim C1.  For every file name, each component of \<open>determine_categories\<close> is the
  first category, in the declaration order of its pattern table, one of whose patterns
  is a case-insensitive substring of the file name (and \<open>None\<close> exactly when no category
  of the table has such a pattern).  In particular a name that contains both
  \<open>oneshot\<close> and \<open>zeroshot\<close> is classified as \<open>oneshot\<close>.
\<close>

theorem determine_categories_first_declared:
  "first_declared shot_patterns filename (fst (determine_categories filename)) \<and>
   first_declared model_patterns filename (snd (determine_categories filename)) \<and>
   (sublist ''oneshot'' (str_lower filename) \<and> sublist ''zeroshot'' (str_lower filename)
      \<longrightarrow> fst (determine_categories filename) = Some ''oneshot'')"
  by (simp add: determine_categories_def Let_def find_category_first_declared oneshot_wins)

text \<open>The same on a name that mentions the second category before the first.\<close>

theorem determine_categories_first_declared_witness:
  "sublist ''oneshot'' (str_lower ''201301_LLaMA_ZeroShot_OneShot.txt'') \<and>
   sublist ''zeroshot'' (str_lower ''201301_LLaMA_ZeroShot_OneShot.txt'') \<and>
   determine_categories ''201301_LLaMA_ZeroShot_OneShot.txt'' = (Some ''oneshot'', Some ''llama'')"
proof -
  have h: "sublist ''oneshot'' (str_lower ''201301_LLaMA_ZeroShot_OneShot.txt'') \<and>
   sublist ''zeroshot'' (str_lower ''201301_LLaMA_ZeroShot_OneShot.txt'')"
    by code_simp
  have m: "snd (determine_categories ''201301_LLaMA_ZeroShot_OneShot.txt'') = Some ''llama''"
    by code_simp
  from h determine_categories_first_declared [of "''201301_LLaMA_ZeroShot_OneShot.txt''"]
  have "fst (determine_categories ''201301_LLaMA_ZeroShot_OneShot.txt'') = Some ''oneshot''"
    by blast
  with h m show ?thesis by (simp add: prod_eq_iff)
qed

lemma six_digits_at_Nil [simp]: "\<not> six_digits_at [] k"
  by (simp add: six_digits_at_def)

lemma six_digits_at_Cons_Suc [simp]: "six_digits_at (c # cs) (Suc k) = six_digits_at cs k"
  by (simp add: six_digits_at_def add.commute)

lemma get_six_digit_number_Cons:
  "get_six_digit_number (c # cs) =
     (if six_digits_at (c # cs) 0 then Some (take 6 (c # cs)) else get_six_digit_number cs)"
  by (simp add: six_digits_at_def)

lemma get_six_digit_number_None_iff:
  "get_six_digit_number s = None \<longleftrightarrow> (\<forall>k. \<not> six_digits_at s k)"
proof (induction s)
  case Nil
  show ?case by simp
next
  case (Cons c cs)
  show ?case
  proof (cases "six_digits_at (c # cs) 0")
    case True
    then have "get_six_digit_number (c # cs) \<noteq> None"
      by (simp only: get_six_digit_number_Cons if_True) simp
    with True show ?thesis by blast
  next
    case False
    then have "get_six_digit_number (c # cs) = get_six_digit_number cs"
      by (simp only: get_six_digit_number_Cons if_False)
    moreover have "(\<forall>k. \<not> six_digits_at (c # cs) k) \<longleftrightarrow> (\<forall>k. \<not> six_digits_at cs k)"
    proof
      assume a: "\<forall>k. \<not> six_digits_at (c # cs) k"
      show "\<forall>k. \<not> six_digits_at cs k"
      proof
        fix k from a have "\<not> six_digits_at (c # cs) (Suc k)" by blast
        then show "\<not> six_digits_at cs k" by simp
      qed
    next
      assume a: "\<forall>k. \<not> six_digits_at cs k"
      show "\<forall>k. \<not> six_digits_at (c # cs) k"
      proof
        fix k show "\<not> six_digits_at (c # cs) k"
          using a False by (cases k) simp_all
      qed
    qed
    ultimately show ?thesis using Cons.IH by simp
  qed
qed

lemma get_six_digit_number_Some:
  "get_six_digit_number s = Some d \<Longrightarrow>
     \<exists>k. six_digits_at s k \<and> (\<forall>j < k. \<not> six_digits_at s j) \<and> d = take 6 (drop k s)"
proof (induction s)
  case Nil
  then show ?case by simp
next
  case (Cons c cs)
  show ?case
  proof (cases "six_digits_at (c # cs) 0")
    case True
    with Cons.prems have "d = take 6 (drop 0 (c # cs))"
      by (simp only: get_six_digit_number_Cons if_True drop_0) simp
    with True show ?thesis by (intro exI[of _ 0]) simp
  next
    case False
    with Cons.prems have "get_six_digit_number cs = Some d"
      by (simp only: get_six_digit_number_Cons if_False)
    from Cons.IH[OF this] obtain k where k: "six_digits_at cs k"
      "\<forall>j < k. \<not> six_digits_at cs j" "d = take 6 (drop k cs)" by blast
    have "\<forall>j < Suc k. \<not> six_digits_at (c # cs) j"
    proof (intro allI impI)
      fix j assume "j < Suc k"
      then show "\<not> six_digits_at (c # cs) j"
        using False k(2) by (cases j) simp_all
    qed
    with k(1,3) show ?thesis by (intro exI[of _ "Suc k"]) simp
  qed
qed

lemma get_six_digit_number_length:
  "get_six_digit_number s = Some d \<Longrightarrow> length d = 6"
  by (induction s) (auto split: if_splits)

lemma find_category_in_table:
  "find_category tbl fl = Some c \<Longrightarrow> c \<in> fst ` set tbl"
  by (induction tbl fl rule: find_category.induct) (auto split: if_splits)

lemma shot_category_nonempty: "find_category shot_patterns fl = Some c \<Longrightarrow> c \<noteq> []"
  by (drule find_category_in_table) (auto simp: shot_patterns_def)

lemma model_category_nonempty: "find_category model_patterns fl = Some c \<Longrightarrow> c \<noteq> []"
  by (drule find_category_in_table) (auto simp: model_patterns_def)

lemma organize_one_unclassified:
  assumes "fst (determine_categories (path_name path)) = None
         \<or> snd (determine_categories (path_name path)) = None
         \<or> get_six_digit_number (path_name path) = None"
  shows "organize_one env output_dir dry_run st path =
           st\<lparr>unclassified_files := unclassified_files st @ [path],
              stats_unclassified := stats_unclassified st + 1,
              organizer_logged := organizer_logged st @ [CouldNotClassify (path_name path)]\<rparr>"
proof -
  obtain s m where sm: "determine_categories (path_name path) = (s, m)"
    by (cases "determine_categories (path_name path)")
  with assms have "\<not> (truthy s \<and> truthy m \<and> truthy (get_six_digit_number (path_name path)))"
    by auto
  then show ?thesis
    unfolding organize_one_def Let_def sm by simp
qed

lemma organize_one_classified:
  assumes dc: "determine_categories (path_name path) = (Some shot_cat, Some model_cat)"
    and six: "get_six_digit_number (path_name path) = Some d"
    and ok: "dry_run \<or> \<not> copy_raises env path
                 (target_path output_dir shot_cat model_cat (d @ ''.txt''))"
  shows "organize_one env output_dir dry_run st path =
           (if dry_run
            then st\<lparr>successful_moves := successful_moves st + 1,
                    stats := (stats st)((shot_cat, model_cat) := stats st (shot_cat, model_cat) + 1),
                    organizer_logged := organizer_logged st @
                       [WouldMove (path_name path) shot_cat model_cat (d @ ''.txt'')]\<rparr>
            else st\<lparr>successful_moves := successful_moves st + 1,
                    stats := (stats st)((shot_cat, model_cat) := stats st (shot_cat, model_cat) + 1),
                    copied := copied st @
                       [(path, target_path output_dir shot_cat model_cat (d @ ''.txt''))],
                    organizer_logged := organizer_logged st @
                       [Moved (path_name path) shot_cat model_cat (d @ ''.txt'')]\<rparr>)"
proof -
  from dc have "shot_cat \<noteq> []" "model_cat \<noteq> []"
    by (auto simp: determine_categories_def Let_def
             dest: shot_category_nonempty model_category_nonempty)
  moreover from six have "d \<noteq> []" by (auto dest: get_six_digit_number_length)
  ultimately have t: "truthy (Some shot_cat) \<and> truthy (Some model_cat) \<and> truthy (Some d)" by simp
  show ?thesis
    unfolding organize_one_def Let_def dc six using t ok by auto
qed

text \<open>
  Claim C2 as stated fails: in a name that starts with seven digits there is no maximal
  run of exactly six digits, yet \<open>get_six_digit_number\<close> returns the first six of the
  seven and the file is organised, not routed to the unclassified bucket.
\<close>

theorem six_digit_run_counterexample:
  "get_six_digit_number ''1234567_llama_oneshot.txt'' = Some ''123456'' \<and>
   spec_first_maximal_six_run ''1234567_llama_oneshot.txt'' = None \<and>
   unclassified_files
     (organize_loop no_failures ''out'' False [''in/1234567_llama_oneshot.txt'']) = [] \<and>
   copied (organize_loop no_failures ''out'' False [''in/1234567_llama_oneshot.txt''])
     = [(''in/1234567_llama_oneshot.txt'', ''out/oneshot/llama/123456.txt'')]"
  by code_simp

text \<open>
  Claim C2, amended.  The extracted document id is the six characters at the leftmost
  offset where six digits follow one another (the first six digits of the first run of
  at least six digits), and there is none exactly when the name has no six digits in a
  row.  A file whose name lacks such a block, a shot category or a model category is
  appended to the unclassified files, counted as unclassified and logged with a warning,
  and nothing else of the state changes (no move, no copy).  A file whose name has all
  three is counted as a successful move under its shot and model category, with the
  target \<open>shot/model/id.txt\<close>, in a dry run or when the copy does not raise.
\<close>

theorem organize_one_classifies:
  "(case get_six_digit_number name of
      None \<Rightarrow> \<forall>k. \<not> six_digits_at name k
    | Some d \<Rightarrow> \<exists>k. six_digits_at name k \<and> (\<forall>j < k. \<not> six_digits_at name j)
                     \<and> d = take 6 (drop k name)) \<and>
   (fst (determine_categories (path_name path)) = None
      \<or> snd (determine_categories (path_name path)) = None
      \<or> get_six_digit_number (path_name path) = None \<longrightarrow>
    organize_one env output_dir dry_run st path =
      st\<lparr>unclassified_files := unclassified_files st @ [path],
         stats_unclassified := stats_unclassified st + 1,
         organizer_logged := organizer_logged st @ [CouldNotClassify (path_name path)]\<rparr>) \<and>
   (determine_categories (path_name path) = (Some shot_cat, Some model_cat)
      \<and> get_six_digit_number (path_name path) = Some d
      \<and> (dry_run \<or> \<not> copy_raises env path
                         (target_path output_dir shot_cat model_cat (d @ ''.txt''))) \<longrightarrow>
    organize_one env output_dir dry_run st path =
      (if dry_run
       then st\<lparr>successful_moves := successful_moves st + 1,
               stats := (stats st)((shot_cat, model_cat) := stats st (shot_cat, model_cat) + 1),
               organizer_logged := organizer_logged st @
                  [WouldMove (path_name path) shot_cat model_cat (d @ ''.txt'')]\<rparr>
       else st\<lparr>successful_moves := successful_moves st + 1,
               stats := (stats st)((shot_cat, model_cat) := stats st (shot_cat, model_cat) + 1),
               copied := copied st @
                  [(path, target_path output_dir shot_cat model_cat (d @ ''.txt''))],
               organizer_logged := organizer_logged st @
                  [Moved (path_name path) shot_cat model_cat (d @ ''.txt'')]\<rparr>))"
proof (intro conjI impI)
  show "case get_six_digit_number name of
      None \<Rightarrow> \<forall>k. \<not> six_digits_at name k
    | Some d \<Rightarrow> \<exists>k. six_digits_at name k \<and> (\<forall>j < k. \<not> six_digits_at name j)
                     \<and> d = take 6 (drop k name)"
    using get_six_digit_number_None_iff[of name] get_six_digit_number_Some[of name]
    by (cases "get_six_digit_number name") simp_all
qed (simp_all only: organize_one_unclassified organize_one_classified)

text \<open>Both cases on concrete names: one without digits, one with all three parts.\<close>

theorem organize_one_classifies_witness:
  "get_six_digit_number (path_name ''in/notes_llama_oneshot.txt'') = None \<and>
   unclassified_files (organize_one no_failures ''out'' False organizer_init
       ''in/notes_llama_oneshot.txt'') = [''in/notes_llama_oneshot.txt''] \<and>
   determine_categories (path_name ''in/201301_llama_oneshot_summary.txt'')
     = (Some ''oneshot'', Some ''llama'') \<and>
   get_six_digit_number (path_name ''in/201301_llama_oneshot_summary.txt'') = Some ''201301'' \<and>
   copied (organize_one no_failures ''out'' False organizer_init
       ''in/201301_llama_oneshot_summary.txt'')
     = [(''in/201301_llama_oneshot_summary.txt'', ''out/oneshot/llama/201301.txt'')]"
proof -
  have a: "get_six_digit_number (path_name ''in/notes_llama_oneshot.txt'') = None"
    by code_simp
  have b: "determine_categories (path_name ''in/201301_llama_oneshot_summary.txt'')
     = (Some ''oneshot'', Some ''llama'')"
    by code_simp
  have c: "get_six_digit_number (path_name ''in/201301_llama_oneshot_summary.txt'')
     = Some ''201301''"
    by code_simp
  have d: "\<not> copy_raises no_failures ''in/201301_llama_oneshot_summary.txt''
     (target_path ''out'' ''oneshot'' ''llama'' (''201301'' @ ''.txt''))"
    by (simp add: no_failures_def)
  have t: "target_path ''out'' ''oneshot'' ''llama'' (''201301'' @ ''.txt'')
     = ''out/oneshot/llama/201301.txt''"
    by (simp add: target_path_def)
  from a organize_one_classifies
     [where name = "path_name ''in/notes_llama_oneshot.txt''"
        and path = "''in/notes_llama_oneshot.txt''" and env = no_failures
        and output_dir = "''out''" and dry_run = False and st = organizer_init]
  have "organize_one no_failures ''out'' False organizer_init ''in/notes_llama_oneshot.txt'' =
      organizer_init\<lparr>unclassified_files :=
           unclassified_files organizer_init @ [''in/notes_llama_oneshot.txt''],
         stats_unclassified := stats_unclassified organizer_init + 1,
         organizer_logged := organizer_logged organizer_init @
           [CouldNotClassify (path_name ''in/notes_llama_oneshot.txt'')]\<rparr>"
    by blast
  then have u: "unclassified_files (organize_one no_failures ''out'' False organizer_init
       ''in/notes_llama_oneshot.txt'') = [''in/notes_llama_oneshot.txt'']"
    by (simp add: organizer_init_def)
  from b c d organize_one_classifies
     [where name = "path_name ''in/201301_llama_oneshot_summary.txt''"
        and path = "''in/201301_llama_oneshot_summary.txt''" and shot_cat = "''oneshot''"
        and model_cat = "''llama''" and d = "''201301''" and env = no_failures
        and output_dir = "''out''" and dry_run = False and st = organizer_init]
  have "copied (organize_one no_failures ''out'' False organizer_init
       ''in/201301_llama_oneshot_summary.txt'')
     = copied organizer_init @ [(''in/201301_llama_oneshot_summary.txt'',
          target_path ''out'' ''oneshot'' ''llama'' (''201301'' @ ''.txt''))]"
    by simp
  then have m: "copied (organize_one no_failures ''out'' False organizer_init
       ''in/201301_llama_oneshot_summary.txt'')
     = [(''in/201301_llama_oneshot_summary.txt'', ''out/oneshot/llama/201301.txt'')]"
    by (simp only: t) (simp add: organizer_init_def)
  from a u b c m show ?thesis by blast
qed

subsection \<open>Exit status\<close>

text \<open>
  Claim C3 as stated fails: \<open>create_report\<close> runs after the loop and outside any
  \<open>try\<close>; when it raises, \<open>main\<close> catches the exception and exits with status 1 although
  a file has been organised.
\<close>

theorem report_failure_counterexample:
  "successful_moves (organize_loop report_unwritable ''out'' False
       [''in/201301_llama_oneshot_summary.txt'']) = 1 \<and>
   organizer_exit report_unwritable ''out'' False [''in/201301_llama_oneshot_summary.txt''] = 1"
  by code_simp

text \<open>
  Claim C3, amended.  For a run that finds at least one input file and in which no
  exception escapes to \<open>main\<close> (for organize\_files.py: a dry run, or the report can be
  written), the exit status is 0 if at least one file was processed successfully, and
  it is non-zero only if none was; so a partial success exits with 0.  The first half
  is organize\_files.py, the second summaryExtractor.py, whose \<open>process_documents\<close>
  returns \<open>True\<close> whenever it found a document.
\<close>

theorem exit_status_partial_success:
  "(text_files \<noteq> [] \<and> (dry_run \<or> \<not> report_raises env) \<longrightarrow>
      (0 < successful_moves (organize_loop env output_dir dry_run text_files) \<longrightarrow>
         organizer_exit env output_dir dry_run text_files = 0) \<and>
      (organizer_exit env output_dir dry_run text_files \<noteq> 0 \<longrightarrow>
         successful_moves (organize_loop env output_dir dry_run text_files) = 0)) \<and>
   (find_docx_files globbed \<noteq> [] \<longrightarrow>
      (0 < snd (process_documents xenv globbed patterns) \<longrightarrow>
         extractor_exit xenv globbed patterns = 0) \<and>
      (extractor_exit xenv globbed patterns \<noteq> 0 \<longrightarrow>
         snd (process_documents xenv globbed patterns) = 0))"
  by (auto simp: organizer_exit_def organize_files_def extractor_exit_def
        process_documents_def Let_def)

text \<open>A partial success (one file organised, one unclassified) and one extraction.\<close>

theorem exit_status_partial_success_witness:
  "[''in/201301_llama_oneshot.txt'', ''in/notes.txt''] \<noteq> [] \<and>
   \<not> report_raises no_failures \<and>
   successful_moves (organize_loop no_failures ''out'' False
       [''in/201301_llama_oneshot.txt'', ''in/notes.txt'']) = 1 \<and>
   stats_unclassified (organize_loop no_failures ''out'' False
       [''in/201301_llama_oneshot.txt'', ''in/notes.txt'']) = 1 \<and>
   organizer_exit no_failures ''out'' False
       [''in/201301_llama_oneshot.txt'', ''in/notes.txt''] = 0 \<and>
   find_docx_files [''docs/201301.docx'', ''docs/readme.docx''] \<noteq> [] \<and>
   snd (process_documents stub_extractor [''docs/201301.docx'', ''docs/readme.docx'']
       [''Summary'']) = 1 \<and>
   extractor_exit stub_extractor [''docs/201301.docx'', ''docs/readme.docx''] [''Summary''] = 0"
proof -
  have a: "\<not> report_raises no_failures"
    by (simp add: no_failures_def)
  have b: "successful_moves (organize_loop no_failures ''out'' False
       [''in/201301_llama_oneshot.txt'', ''in/notes.txt'']) = 1"
    by code_simp
  have c: "stats_unclassified (organize_loop no_failures ''out'' False
       [''in/201301_llama_oneshot.txt'', ''in/notes.txt'']) = 1"
    by code_simp
  have d: "find_docx_files [''docs/201301.docx'', ''docs/readme.docx''] \<noteq> []"
    by code_simp
  have e: "snd (process_documents stub_extractor [''docs/201301.docx'', ''docs/readme.docx'']
       [''Summary'']) = 1"
    by code_simp
  note t = exit_status_partial_success
     [where text_files = "[''in/201301_llama_oneshot.txt'', ''in/notes.txt'']"
        and dry_run = False and env = no_failures and output_dir = "''out''"
        and globbed = "[''docs/201301.docx'', ''docs/readme.docx'']"
        and xenv = stub_extractor and patterns = "[''Summary'']"]
  from t a b have f: "organizer_exit no_failures ''out'' False
       [''in/201301_llama_oneshot.txt'', ''in/notes.txt''] = 0"
    by simp
  from t d e have g: "extractor_exit stub_extractor
       [''docs/201301.docx'', ''docs/readme.docx''] [''Summary''] = 0"
    by simp
  from a b c d e f g show ?thesis by simp
qed

subsection \<open>Pair matcher\<close>

lemma add_reference_snd_keys:
  "distinct (map fst (fst acc)) \<Longrightarrow> distinct (map fst (fst (add_reference dir acc f)))"
  by (cases acc) (auto simp: add_reference_def distinct_update split: option.splits)

lemma scan_distinct_aux:
  "distinct (map fst (fst acc)) \<Longrightarrow>
   distinct (map fst (fst (foldl (add_reference dir) acc listing)))"
  by (induction listing arbitrary: acc) (simp_all add: add_reference_snd_keys)

lemma map_of_add_reference:
  "map_of (fst (add_reference dir acc f)) d =
     (if reference_identifier f = Some d then Some (os_path_join dir f)
      else map_of (fst acc) d)"
  by (cases acc) (auto simp: add_reference_def update_conv' split: option.splits)

lemma snd_add_reference_mono:
  "set (snd acc) \<subseteq> set (snd (add_reference dir acc f))"
  by (cases acc) (auto simp: add_reference_def split: option.splits)

lemma duplicate_logged:
  "reference_identifier f = Some d \<Longrightarrow> map_of (fst acc) d \<noteq> None \<Longrightarrow>
   DuplicateReference d f \<in> set (snd (add_reference dir acc f))"
  by (cases acc) (auto simp: add_reference_def split: option.splits)

lemma scan_last_binding:
  assumes "\<exists>k < length listing. reference_identifier (listing ! k) = Some d"
  shows "\<exists>k < length listing. reference_identifier (listing ! k) = Some d
           \<and> (\<forall>l. k < l \<and> l < length listing \<longrightarrow> reference_identifier (listing ! l) \<noteq> Some d)
           \<and> map_of (fst (foldl (add_reference dir) acc listing)) d
               = Some (os_path_join dir (listing ! k))"
  using assms
proof (induction listing rule: rev_induct)
  case Nil
  then show ?case by simp
next
  case (snoc x xs)
  show ?case
  proof (cases "reference_identifier x = Some d")
    case True
    have "map_of (fst (foldl (add_reference dir) acc (xs @ [x]))) d = Some (os_path_join dir x)"
      using True by (simp add: map_of_add_reference)
    moreover have "\<forall>l. length xs < l \<and> l < length (xs @ [x]) \<longrightarrow>
        reference_identifier ((xs @ [x]) ! l) \<noteq> Some d"
      by auto
    ultimately show ?thesis using True
      by (intro exI[of _ "length xs"]) simp
  next
    case False
    from snoc.prems obtain k0 where k0: "k0 < length (xs @ [x])"
      "reference_identifier ((xs @ [x]) ! k0) = Some d" by blast
    with False have "k0 < length xs"
      by (cases "k0 = length xs") auto
    with k0(2) have "\<exists>k < length xs. reference_identifier (xs ! k) = Some d"
      by (auto simp: nth_append)
    from snoc.IH[OF this] obtain k where k: "k < length xs"
      "reference_identifier (xs ! k) = Some d"
      "\<forall>l. k < l \<and> l < length xs \<longrightarrow> reference_identifier (xs ! l) \<noteq> Some d"
      "map_of (fst (foldl (add_reference dir) acc xs)) d = Some (os_path_join dir (xs ! k))"
      by blast
    have later: "\<forall>l. k < l \<and> l < length (xs @ [x]) \<longrightarrow>
        reference_identifier ((xs @ [x]) ! l) \<noteq> Some d"
    proof (intro allI impI)
      fix l assume l: "k < l \<and> l < length (xs @ [x])"
      show "reference_identifier ((xs @ [x]) ! l) \<noteq> Some d"
      proof (cases "l < length xs")
        case True
        with l k(3) show ?thesis by (simp add: nth_append)
      next
        case False
        with l have "l = length xs" by simp
        with \<open>reference_identifier x \<noteq> Some d\<close> show ?thesis by simp
      qed
    qed
    have "map_of (fst (foldl (add_reference dir) acc (xs @ [x]))) d
            = Some (os_path_join dir ((xs @ [x]) ! k))"
      using False k(1,4) by (simp add: map_of_add_reference nth_append)
    with k(1,2) later show ?thesis
      by (intro exI[of _ k]) (simp add: nth_append)
  qed
qed

lemma scan_bound_iff:
  "map_of (fst (foldl (add_reference dir) acc listing)) d \<noteq> None \<longleftrightarrow>
     map_of (fst acc) d \<noteq> None \<or> (\<exists>f \<in> set listing. reference_identifier f = Some d)"
  by (induction listing rule: rev_induct) (auto simp: map_of_add_reference)

lemma scan_log_mono:
  "set (snd acc) \<subseteq> set (snd (foldl (add_reference dir) acc listing))"
proof (induction listing rule: rev_induct)
  case Nil
  show ?case by simp
next
  case (snoc x xs)
  then show ?case
    using snd_add_reference_mono[of "foldl (add_reference dir) acc xs" dir x] by auto
qed

lemma scan_duplicate_warning:
  assumes "i < j" "j < length listing"
    "reference_identifier (listing ! i) = Some d" "reference_identifier (listing ! j) = Some d"
  shows "DuplicateReference d (listing ! j) \<in> set (snd (foldl (add_reference dir) acc listing))"
proof -
  define xs where "xs = take j listing"
  define ys where "ys = drop (Suc j) listing"
  have split: "listing = xs @ listing ! j # ys"
    using assms(2) by (simp add: xs_def ys_def id_take_nth_drop)
  have "listing ! i \<in> set xs"
    using assms(1,2) by (auto simp: xs_def in_set_conv_nth intro!: exI[of _ i])
  with assms(3) have "map_of (fst (foldl (add_reference dir) acc xs)) d \<noteq> None"
    by (subst scan_bound_iff) blast
  with assms(4) have "DuplicateReference d (listing ! j) \<in>
      set (snd (add_reference dir (foldl (add_reference dir) acc xs) (listing ! j)))"
    by (simp add: duplicate_logged)
  moreover have "foldl (add_reference dir) acc listing =
      foldl (add_reference dir) (add_reference dir (foldl (add_reference dir) acc xs) (listing ! j)) ys"
    by (subst split) simp
  ultimately show ?thesis
    using scan_log_mono by fastforce
qed

text \<open>
  Claim C4.  After the scan of the reference directory the mapping has at most one path
  per document id (its keys are distinct).  When two files of the listing, at positions
  \<open>i < j\<close>, carry the same six-digit id, a duplicate warning naming the later file is
  logged, and the id is bound to the path of the last file of the listing that carries
  it (last write wins).
\<close>

theorem duplicate_reference_last_wins:
  "distinct (map fst (fst (scan_references reference_dir listing))) \<and>
   (i < j \<and> j < length listing \<and> reference_identifier (listing ! i) = Some d
      \<and> reference_identifier (listing ! j) = Some d \<longrightarrow>
    DuplicateReference d (listing ! j) \<in> set (snd (scan_references reference_dir listing)) \<and>
    (\<exists>k. j \<le> k \<and> k < length listing \<and> reference_identifier (listing ! k) = Some d
        \<and> (\<forall>l. k < l \<and> l < length listing \<longrightarrow> reference_identifier (listing ! l) \<noteq> Some d)
        \<and> map_of (fst (scan_references reference_dir listing)) d
            = Some (os_path_join reference_dir (listing ! k))))"
proof (intro conjI impI)
  show "distinct (map fst (fst (scan_references reference_dir listing)))"
    unfolding scan_references_def by (rule scan_distinct_aux) simp
next
  assume a: "i < j \<and> j < length listing \<and> reference_identifier (listing ! i) = Some d
      \<and> reference_identifier (listing ! j) = Some d"
  then show "DuplicateReference d (listing ! j)
      \<in> set (snd (scan_references reference_dir listing))"
    unfolding scan_references_def by (intro scan_duplicate_warning[of i j]) simp_all
  from a have "\<exists>k < length listing. reference_identifier (listing ! k) = Some d" by blast
  from scan_last_binding[OF this, of reference_dir "([], [])"]
  obtain k where k: "k < length listing" "reference_identifier (listing ! k) = Some d"
    "\<forall>l. k < l \<and> l < length listing \<longrightarrow> reference_identifier (listing ! l) \<noteq> Some d"
    "map_of (fst (scan_references reference_dir listing)) d
       = Some (os_path_join reference_dir (listing ! k))"
    unfolding scan_references_def by blast
  have "j \<le> k"
  proof (rule ccontr)
    assume "\<not> j \<le> k"
    with a k(3) show False by auto
  qed
  with k show "\<exists>k. j \<le> k \<and> k < length listing \<and> reference_identifier (listing ! k) = Some d
        \<and> (\<forall>l. k < l \<and> l < length listing \<longrightarrow> reference_identifier (listing ! l) \<noteq> Some d)
        \<and> map_of (fst (scan_references reference_dir listing)) d
            = Some (os_path_join reference_dir (listing ! k))"
    by blast
qed

text \<open>A listing in which two files carry the id 100001.\<close>

theorem duplicate_reference_last_wins_witness:
  "(0::nat) < 2 \<and> (2::nat) < length [''a_100001.txt'', ''notes.md'', ''b_100001.txt'', ''100002.txt''] \<and>
   reference_identifier ([''a_100001.txt'', ''notes.md'', ''b_100001.txt'', ''100002.txt''] ! 0)
     = Some ''100001'' \<and>
   reference_identifier ([''a_100001.txt'', ''notes.md'', ''b_100001.txt'', ''100002.txt''] ! 2)
     = Some ''100001'' \<and>
   DuplicateReference ''100001'' ''b_100001.txt''
     \<in> set (snd (scan_references ''refs''
          [''a_100001.txt'', ''notes.md'', ''b_100001.txt'', ''100002.txt''])) \<and>
   map_of (fst (scan_references ''refs''
          [''a_100001.txt'', ''notes.md'', ''b_100001.txt'', ''100002.txt''])) ''100001''
     = Some ''refs/b_100001.txt''"
proof -
  let ?l = "[''a_100001.txt'', ''notes.md'', ''b_100001.txt'', ''100002.txt'']"
  have a: "(0::nat) < 2 \<and> (2::nat) < length ?l" by simp
  have b: "reference_identifier (?l ! 0) = Some ''100001''" by code_simp
  have c: "reference_identifier (?l ! 2) = Some ''100001''" by code_simp
  have m: "map_of (fst (scan_references ''refs'' ?l)) ''100001'' = Some ''refs/b_100001.txt''"
    by code_simp
  from a b c duplicate_reference_last_wins
    [where i = 0 and j = 2 and listing = ?l and d = "''100001''" and reference_dir = "''refs''"]
  have "DuplicateReference ''100001'' (?l ! 2) \<in> set (snd (scan_references ''refs'' ?l))"
    by blast
  then have "DuplicateReference ''100001'' ''b_100001.txt''
     \<in> set (snd (scan_references ''refs'' ?l))" by simp
  with a b c m show ?thesis by blast
qed

lemma match_generated_unmatched:
  assumes "generated_identifier file = Some d" "map_of reference_mapping d = None"
  shows "fst (match_generated env base reference_mapping rel_dirs acc file) = fst acc"
    and "snd (match_generated env base reference_mapping rel_dirs acc file) =
           (if length rel_dirs < 2
            then snd acc @ [UnexpectedStructure (generated_path base rel_dirs file)]
            else snd acc) @ [ReferenceNotFound d (generated_path base rel_dirs file)]"
  using assms by (cases acc; simp add: match_generated_def Let_def)+

lemma match_generated_pairs_only:
  "fst (match_generated env base m rel_dirs (ps, out) file) =
   fst (match_generated env base m rel_dirs (ps, out') file)"
  by (simp add: match_generated_def Let_def split: option.splits)

lemma foldl_match_pairs_only:
  "fst (foldl (match_generated env base m rel_dirs) (ps, out) files) =
   fst (foldl (match_generated env base m rel_dirs) (ps, out') files)"
proof (induction files arbitrary: ps out out')
  case Nil
  show ?case by simp
next
  case (Cons f fs)
  obtain p1 o1 where a: "match_generated env base m rel_dirs (ps, out) f = (p1, o1)"
    by (cases "match_generated env base m rel_dirs (ps, out) f")
  obtain p2 o2 where b: "match_generated env base m rel_dirs (ps, out') f = (p2, o2)"
    by (cases "match_generated env base m rel_dirs (ps, out') f")
  from a b match_generated_pairs_only[of env base m rel_dirs ps out f out']
  have "p1 = p2" by simp
  with a b Cons.IH[of p1 o1 o2] show ?case by simp
qed

lemma skip_and_continue:
  assumes "generated_identifier file = Some d" "map_of m d = None"
  shows "fst (foldl (match_generated env base m rel_dirs) acc (before @ file # after)) =
         fst (foldl (match_generated env base m rel_dirs) acc (before @ after))"
proof -
  obtain ps out where s: "foldl (match_generated env base m rel_dirs) acc before = (ps, out)"
    by (cases "foldl (match_generated env base m rel_dirs) acc before")
  obtain ps' out' where t: "match_generated env base m rel_dirs (ps, out) file = (ps', out')"
    by (cases "match_generated env base m rel_dirs (ps, out) file")
  from match_generated_unmatched(1)[OF assms, of env base rel_dirs "(ps, out)"] t
  have "ps' = ps" by simp
  with s t show ?thesis
    using foldl_match_pairs_only[of env base m rel_dirs ps out' after out] by simp
qed

lemma example_run:
  "read_summaries all_readable ''refs'' example_listing ''gen'' example_walk =
     ([\<lparr>Generated_Summary = ''summary of gen/oneshot/llama/100001.txt'',
        Reference_Summary = ''summary of refs/ref_100001.txt'',
        Learning_Mode = ''oneshot'', Model = ''llama''\<rparr>],
      [ReferenceNotFound ''999999'' ''gen/oneshot/llama/999999.txt''])"
  by code_simp

text \<open>
  Claim C5.  A generated file whose document id has no entry in the reference mapping
  adds no pair, its last log line is the warning that the reference was not found, and
  the loop goes on: the pairs built from a directory's files are the same as if the file
  were not there.  In particular, with reference files for the ids 100001 and 100002
  and generated files \<open>100001.txt\<close> and \<open>999999.txt\<close> (all readable, none blank),
  \<open>read_summaries\<close> returns exactly one pair, the one of 100001, and logs exactly one
  unmatched file, \<open>999999.txt\<close>.
\<close>

theorem unmatched_generated_skipped:
  "(generated_identifier gen_file = Some d \<and> map_of reference_mapping d = None \<longrightarrow>
      fst (match_generated env generated_base_dir reference_mapping rel_dirs acc gen_file) = fst acc \<and>
      last (snd (match_generated env generated_base_dir reference_mapping rel_dirs acc gen_file))
        = ReferenceNotFound d (generated_path generated_base_dir rel_dirs gen_file) \<and>
      fst (foldl (match_generated env generated_base_dir reference_mapping rel_dirs) acc
             (before @ gen_file # after)) =
      fst (foldl (match_generated env generated_base_dir reference_mapping rel_dirs) acc
             (before @ after))) \<and>
   read_summaries all_readable ''refs'' example_listing ''gen'' example_walk =
     ([\<lparr>Generated_Summary = ''summary of gen/oneshot/llama/100001.txt'',
        Reference_Summary = ''summary of refs/ref_100001.txt'',
        Learning_Mode = ''oneshot'', Model = ''llama''\<rparr>],
      [ReferenceNotFound ''999999'' ''gen/oneshot/llama/999999.txt''])"
proof (intro conjI impI)
  assume a: "generated_identifier gen_file = Some d \<and> map_of reference_mapping d = None"
  then show "fst (match_generated env generated_base_dir reference_mapping rel_dirs acc gen_file)
      = fst acc"
    by (simp add: match_generated_unmatched)
  from a show "last (snd (match_generated env generated_base_dir reference_mapping rel_dirs acc
        gen_file)) = ReferenceNotFound d (generated_path generated_base_dir rel_dirs gen_file)"
    by (simp add: match_generated_unmatched)
  from a have "generated_identifier gen_file = Some d" "map_of reference_mapping d = None"
    by simp_all
  from skip_and_continue[OF this]
  show "fst (foldl (match_generated env generated_base_dir reference_mapping rel_dirs) acc
             (before @ gen_file # after)) =
      fst (foldl (match_generated env generated_base_dir reference_mapping rel_dirs) acc
             (before @ after))" .
qed (rule example_run)

text \<open>The unmatched file of the example, taken alone.\<close>

theorem unmatched_generated_skipped_witness:
  "generated_identifier ''999999.txt'' = Some ''999999'' \<and>
   map_of (fst (scan_references ''refs'' example_listing)) ''999999'' = None \<and>
   match_generated all_readable ''gen'' (fst (scan_references ''refs'' example_listing))
       [''oneshot'', ''llama''] ([], []) ''999999.txt''
     = ([], [ReferenceNotFound ''999999'' ''gen/oneshot/llama/999999.txt''])"
proof -
  have a: "generated_identifier ''999999.txt'' = Some ''999999''" by code_simp
  have b: "map_of (fst (scan_references ''refs'' example_listing)) ''999999'' = None"
    by code_simp
  have c: "snd (match_generated all_readable ''gen'' (fst (scan_references ''refs'' example_listing))
       [''oneshot'', ''llama''] ([], []) ''999999.txt'')
     = [ReferenceNotFound ''999999'' ''gen/oneshot/llama/999999.txt'']" by code_simp
  from a b unmatched_generated_skipped
    [where gen_file = "''999999.txt''" and d = "''999999''"
       and reference_mapping = "fst (scan_references ''refs'' example_listing)"
       and env = all_readable and generated_base_dir = "''gen''"
       and rel_dirs = "[''oneshot'', ''llama'']" and acc = "([], [])"]
  have "fst (match_generated all_readable ''gen'' (fst (scan_references ''refs'' example_listing))
       [''oneshot'', ''llama''] ([], []) ''999999.txt'') = []"
    by simp
  with a b c show ?thesis by (simp add: prod_eq_iff)
qed

lemma match_generated_invariant:
  assumes "\<forall>p \<in> set (fst acc). Generated_Summary p \<noteq> [] \<and> Reference_Summary p \<noteq> []"
  shows "\<forall>p \<in> set (fst (match_generated env base m rel_dirs acc file)).
           Generated_Summary p \<noteq> [] \<and> Reference_Summary p \<noteq> []"
  using assms by (cases acc) (auto simp: match_generated_def Let_def split: option.splits)

lemma foldl_match_invariant:
  assumes "\<forall>p \<in> set (fst acc). Generated_Summary p \<noteq> [] \<and> Reference_Summary p \<noteq> []"
  shows "\<forall>p \<in> set (fst (foldl (match_generated env base m rel_dirs) acc files)).
           Generated_Summary p \<noteq> [] \<and> Reference_Summary p \<noteq> []"
  using assms
proof (induction files arbitrary: acc)
  case Nil
  then show ?case by simp
next
  case (Cons f fs)
  from match_generated_invariant[OF Cons.prems]
  have "\<forall>p \<in> set (fst (match_generated env base m rel_dirs acc f)).
           Generated_Summary p \<noteq> [] \<and> Reference_Summary p \<noteq> []" .
  from Cons.IH[OF this] show ?case by simp
qed

lemma walk_generated_invariant:
  assumes "\<forall>p \<in> set (fst acc). Generated_Summary p \<noteq> [] \<and> Reference_Summary p \<noteq> []"
  shows "\<forall>p \<in> set (fst (walk_generated env base m walk acc)).
           Generated_Summary p \<noteq> [] \<and> Reference_Summary p \<noteq> []"
  using assms unfolding walk_generated_def
proof (induction walk arbitrary: acc)
  case Nil
  then show ?case by simp
next
  case (Cons e es)
  obtain rel_dirs files where e: "e = (rel_dirs, files)" by (cases e)
  from foldl_match_invariant[OF Cons.prems]
  have "\<forall>p \<in> set (fst (foldl (match_generated env base m rel_dirs) acc files)).
           Generated_Summary p \<noteq> [] \<and> Reference_Summary p \<noteq> []" .
  from Cons.IH[OF this] show ?case by (simp add: e)
qed

lemma match_generated_empty:
  assumes "generated_identifier file = Some d"
    and "(read_text env (generated_path base rel_dirs file) = Some g \<and> str_strip g = [])
       \<or> (map_of m d = Some ref_path \<and> read_text env ref_path = Some r \<and> str_strip r = [])"
  shows "fst (match_generated env base m rel_dirs acc file) = fst acc"
  using assms by (cases acc) (auto simp: match_generated_def Let_def split: option.splits)

text \<open>
  Claim C9.  Every pair returned by \<open>read_summaries\<close> has a non-empty generated summary
  and a non-empty reference summary; and a generated file whose own text, or whose
  reference's text, is empty after stripping whitespace adds no pair.
\<close>

theorem pairs_have_nonempty_summaries:
  "(\<forall>p \<in> set (fst (read_summaries env reference_dir listing generated_base_dir walk)).
       Generated_Summary p \<noteq> [] \<and> Reference_Summary p \<noteq> []) \<and>
   (generated_identifier gen_file = Some d \<and>
    ((read_text env (generated_path generated_base_dir rel_dirs gen_file) = Some g \<and> str_strip g = [])
       \<or> (map_of reference_mapping d = Some ref_path \<and> read_text env ref_path = Some r
            \<and> str_strip r = [])) \<longrightarrow>
    fst (match_generated env generated_base_dir reference_mapping rel_dirs acc gen_file) = fst acc)"
proof (intro conjI impI)
  obtain m out where s: "scan_references reference_dir listing = (m, out)"
    by (cases "scan_references reference_dir listing")
  have "\<forall>p \<in> set (fst (walk_generated env generated_base_dir m walk ([], out))).
           Generated_Summary p \<noteq> [] \<and> Reference_Summary p \<noteq> []"
    by (rule walk_generated_invariant) simp
  then show "\<forall>p \<in> set (fst (read_summaries env reference_dir listing generated_base_dir walk)).
       Generated_Summary p \<noteq> [] \<and> Reference_Summary p \<noteq> []"
    by (simp add: read_summaries_def s)
next
  assume "generated_identifier gen_file = Some d \<and>
    ((read_text env (generated_path generated_base_dir rel_dirs gen_file) = Some g \<and> str_strip g = [])
       \<or> (map_of reference_mapping d = Some ref_path \<and> read_text env ref_path = Some r
            \<and> str_strip r = []))"
  then show "fst (match_generated env generated_base_dir reference_mapping rel_dirs acc gen_file) = fst acc"
    using match_generated_empty by blast
qed

text \<open>A returned pair, and a generated file that holds only a blank and a line break.\<close>

theorem pairs_have_nonempty_summaries_witness:
  "\<lparr>Generated_Summary = ''summary of gen/oneshot/llama/100001.txt'',
     Reference_Summary = ''summary of refs/ref_100001.txt'',
     Learning_Mode = ''oneshot'', Model = ''llama''\<rparr>
     \<in> set (fst (read_summaries all_readable ''refs'' example_listing ''gen'' example_walk)) \<and>
   generated_identifier ''100001.txt'' = Some ''100001'' \<and>
   read_text blank_generated (generated_path ''gen'' [''oneshot'', ''llama''] ''100001.txt'')
     = Some ('' '' @ [CHR 0x0A]) \<and>
   str_strip ('' '' @ [CHR 0x0A]) = [] \<and>
   fst (match_generated blank_generated ''gen'' (fst (scan_references ''refs'' example_listing))
          [''oneshot'', ''llama''] ([], []) ''100001.txt'') = []"
proof -
  have a: "\<lparr>Generated_Summary = ''summary of gen/oneshot/llama/100001.txt'',
     Reference_Summary = ''summary of refs/ref_100001.txt'',
     Learning_Mode = ''oneshot'', Model = ''llama''\<rparr>
     \<in> set (fst (read_summaries all_readable ''refs'' example_listing ''gen'' example_walk))"
    by (simp add: example_run)
  have b: "generated_identifier ''100001.txt'' = Some ''100001''" by code_simp
  have c: "read_text blank_generated (generated_path ''gen'' [''oneshot'', ''llama''] ''100001.txt'')
     = Some ('' '' @ [CHR 0x0A])" by code_simp
  have d: "str_strip ('' '' @ [CHR 0x0A]) = []" by code_simp
  from b c d pairs_have_nonempty_summaries
    [where gen_file = "''100001.txt''" and d = "''100001''" and env = blank_generated
       and generated_base_dir = "''gen''" and rel_dirs = "[''oneshot'', ''llama'']"
       and g = "'' '' @ [CHR 0x0A]" and acc = "([], [])"
       and reference_mapping = "fst (scan_references ''refs'' example_listing)"]
  have "fst (match_generated blank_generated ''gen'' (fst (scan_references ''refs'' example_listing))
          [''oneshot'', ''llama''] ([], []) ''100001.txt'') = []"
    by simp
  with a b c d show ?thesis by blast
qed

subsection \<open>Renamer: a naming conflict changes nothing\<close>

lemma update_fresh_key:
  "k \<notin> fst ` set al \<Longrightarrow> AList.update k v al = al @ [(k, v)]"
  by (induction al) auto

lemma first_pass_conflict:
  assumes "map_agrees env pe rename_map"
    and "(\<exists>j n. j < length files \<and> generate_new_name env pe (files ! j) = Some n
              \<and> output_path env n \<in> snd ` set rename_map)
         \<or> naming_conflict env pe files"
  shows "isl (first_pass env pe files rename_map)"
  using assms
proof (induction files arbitrary: rename_map)
  case Nil
  then show ?case by (simp add: naming_conflict_def)
next
  case (Cons f rest)
  show ?case
  proof (cases "generate_new_name env pe f")
    case None
    then show ?thesis by simp
  next
    case (Some n)
    show ?thesis
    proof (cases "output_path env n \<in> snd ` set rename_map")
      case True
      with Some show ?thesis by (simp add: Let_def)
    next
      case False
      have fresh: "f \<notin> fst ` set rename_map"
      proof
        assume "f \<in> fst ` set rename_map"
        then obtain v where "(f, v) \<in> set rename_map" by auto
        with Cons.prems(1) Some have "v = output_path env n"
          by (auto simp: map_agrees_def)
        with \<open>(f, v) \<in> set rename_map\<close> False show False by force
      qed
      let ?m = "AList.update f (output_path env n) rename_map"
      have m: "?m = rename_map @ [(f, output_path env n)]"
        using fresh by (rule update_fresh_key)
      have vals: "snd ` set ?m = insert (output_path env n) (snd ` set rename_map)"
        by (simp add: m)
      have agrees: "map_agrees env pe ?m"
        using Cons.prems(1) Some by (auto simp: m map_agrees_def)
      have step: "first_pass env pe (f # rest) rename_map = first_pass env pe rest ?m"
        using Some False by (simp add: Let_def)
      have "(\<exists>j n'. j < length rest \<and> generate_new_name env pe (rest ! j) = Some n'
                \<and> output_path env n' \<in> snd ` set ?m)
            \<or> naming_conflict env pe rest"
        using Cons.prems(2)
      proof
        assume "\<exists>j n'. j < length (f # rest) \<and> generate_new_name env pe ((f # rest) ! j) = Some n'
              \<and> output_path env n' \<in> snd ` set rename_map"
        then obtain j n' where j: "j < length (f # rest)"
          "generate_new_name env pe ((f # rest) ! j) = Some n'"
          "output_path env n' \<in> snd ` set rename_map" by blast
        with Some False obtain j' where "j = Suc j'" by (cases j) auto
        with j have "j' < length rest \<and> generate_new_name env pe (rest ! j') = Some n'
                \<and> output_path env n' \<in> snd ` set ?m"
          by (simp add: vals)
        then show ?thesis by blast
      next
        assume "naming_conflict env pe (f # rest)"
        then obtain i j a b where c: "i < j" "j < length (f # rest)"
          "generate_new_name env pe ((f # rest) ! i) = Some a"
          "generate_new_name env pe ((f # rest) ! j) = Some b"
          "output_path env a = output_path env b"
          unfolding naming_conflict_def by blast
        from c(1) obtain j' where j': "j = Suc j'" by (cases j) auto
        show ?thesis
        proof (cases i)
          case 0
          with c(3) Some have "a = n" by simp
          with c(5) have "output_path env b \<in> snd ` set ?m"
            unfolding vals by simp
          with c(2,4) j' have "j' < length rest \<and> generate_new_name env pe (rest ! j') = Some b
                \<and> output_path env b \<in> snd ` set ?m"
            by simp
          then show ?thesis by blast
        next
          case (Suc i')
          with c j' have "i' < j' \<and> j' < length rest
             \<and> generate_new_name env pe (rest ! i') = Some a
             \<and> generate_new_name env pe (rest ! j') = Some b
             \<and> output_path env a = output_path env b" by auto
          then have "naming_conflict env pe rest"
            unfolding naming_conflict_def by blast
          then show ?thesis by blast
        qed
      qed
      from Cons.IH[OF agrees this] step show ?thesis by simp
    qed
  qed
qed

text \<open>
  Claim C8.  When two input files would map to the same output path, \<open>rename_files\<close>
  returns \<open>False\<close> from its first pass: the output directory is not created and no file
  is copied, so the output state is the one it was called with.
\<close>

theorem conflict_leaves_output_unchanged:
  "naming_conflict env preserve_extension files \<Longrightarrow>
   rename_files env preserve_extension dry_run files fs = (Inr False, fs)"
proof -
  assume c: "naming_conflict env preserve_extension files"
  have "map_agrees env preserve_extension []" by (simp add: map_agrees_def)
  from first_pass_conflict[OF this] c
  have "isl (first_pass env preserve_extension files [])" by blast
  then obtain e where "first_pass env preserve_extension files [] = Inl e"
    by (cases "first_pass env preserve_extension files []") auto
  then show ?thesis by (simp add: rename_files_def)
qed

lemma example_conflict:
  "naming_conflict drop_digits True [''in/a1.txt'', ''in/b.txt'', ''in/a2.txt'']"
proof -
  have "(0::nat) < 2 \<and> (2::nat) < length [''in/a1.txt'', ''in/b.txt'', ''in/a2.txt'']
    \<and> generate_new_name drop_digits True ([''in/a1.txt'', ''in/b.txt'', ''in/a2.txt''] ! 0) = Some ''a.txt''
    \<and> generate_new_name drop_digits True ([''in/a1.txt'', ''in/b.txt'', ''in/a2.txt''] ! 2) = Some ''a.txt''
    \<and> output_path drop_digits ''a.txt'' = output_path drop_digits ''a.txt''"
    by code_simp
  then show ?thesis unfolding naming_conflict_def by blast
qed

text \<open>Deleting the digits sends \<open>a1.txt\<close> and \<open>a2.txt\<close> to the same name.\<close>

theorem conflict_leaves_output_unchanged_witness:
  "naming_conflict drop_digits True [''in/a1.txt'', ''in/b.txt'', ''in/a2.txt''] \<and>
   rename_files drop_digits True False [''in/a1.txt'', ''in/b.txt'', ''in/a2.txt''] untouched
     = (Inr False, untouched)"
  using example_conflict conflict_leaves_output_unchanged[OF example_conflict] by simp

subsection \<open>Ranking\<close>

lemma insort_key_before:
  assumes "sorted_wrt (before_in_rank key) ys" "\<forall>y \<in> set ys. x < y"
  shows "sorted_wrt (before_in_rank key) (insort_key key x ys)"
  using assms
proof (induction ys)
  case Nil
  then show ?case by simp
next
  case (Cons y ys)
  show ?case
  proof (cases "key x \<le> key y")
    case True
    have "\<forall>z \<in> set (y # ys). before_in_rank key x z"
    proof
      fix z assume z: "z \<in> set (y # ys)"
      have "key y \<le> key z"
        using z Cons.prems(1) by (auto simp: before_in_rank_def)
      with True have "key x \<le> key z" by simp
      moreover from z Cons.prems(2) have "x < z" by blast
      ultimately show "before_in_rank key x z"
        by (auto simp: before_in_rank_def)
    qed
    with True Cons.prems(1) show ?thesis by simp
  next
    case False
    then have "before_in_rank key y x" by (simp add: before_in_rank_def)
    moreover have "sorted_wrt (before_in_rank key) (insort_key key x ys)"
      using Cons by simp
    ultimately show ?thesis
      using False Cons.prems(1) by (auto simp: set_insort_key)
  qed
qed

lemma sort_key_before:
  "sorted_wrt (<) xs \<Longrightarrow> sorted_wrt (before_in_rank key) (sort_key key xs)"
proof (induction xs)
  case Nil
  show ?case by simp
next
  case (Cons x xs)
  then have "sorted_wrt (before_in_rank key) (sort_key key xs)" by simp
  moreover from Cons.prems have "\<forall>y \<in> set (sort_key key xs). x < y" by simp
  ultimately show ?case by (simp add: insort_key_before)
qed

lemma rank_order_props:
  "length (rank_order rs) = length rs"
  "distinct (rank_order rs)"
  "set (rank_order rs) = {0..<length rs}"
  by (simp_all add: rank_order_def)

lemma rank_order_sorted:
  "sorted_wrt (before_in_rank (\<lambda>i. - scores_sum (rs ! i))) (rank_order rs)"
  unfolding rank_order_def by (rule sort_key_before) simp

lemma enumerate_from_one:
  "length [1..<Suc n] = n" "k < n \<Longrightarrow> [1..<Suc n] ! k = Suc k"
  by (simp_all del: upt_Suc)

lemma foldl_assign_rank:
  assumes "distinct js" "set js \<subseteq> {0..<length rs}" "length idxs = length js"
  shows "length (foldl assign_rank rs (zip idxs js)) = length rs
       \<and> (\<forall>k < length js. foldl assign_rank rs (zip idxs js) ! (js ! k)
                             = (rs ! (js ! k))\<lparr>rank := Some (idxs ! k)\<rparr>)
       \<and> (\<forall>j < length rs. j \<notin> set js \<longrightarrow> foldl assign_rank rs (zip idxs js) ! j = rs ! j)"
  using assms
proof (induction js arbitrary: rs idxs)
  case Nil
  then show ?case by simp
next
  case (Cons j js)
  from Cons.prems(3) obtain x xs where idxs: "idxs = x # xs" "length xs = length js"
    by (cases idxs) auto
  let ?rs = "rs[j := (rs ! j)\<lparr>rank := Some x\<rparr>]"
  let ?out = "foldl assign_rank ?rs (zip xs js)"
  have out: "foldl assign_rank rs (zip idxs (j # js)) = ?out"
    by (simp add: idxs assign_rank_def)
  from Cons.prems have pre: "distinct js" "set js \<subseteq> {0..<length ?rs}" "j \<notin> set js"
    "j < length rs" by auto
  from Cons.IH[OF pre(1,2) idxs(2)]
  have ih: "length ?out = length ?rs"
    "\<forall>k < length js. ?out ! (js ! k) = (?rs ! (js ! k))\<lparr>rank := Some (xs ! k)\<rparr>"
    "\<forall>i < length ?rs. i \<notin> set js \<longrightarrow> ?out ! i = ?rs ! i"
    by blast+
  have a: "length ?out = length rs" using ih(1) by simp
  have b: "\<forall>k < length (j # js). ?out ! ((j # js) ! k)
             = (rs ! ((j # js) ! k))\<lparr>rank := Some (idxs ! k)\<rparr>"
  proof (intro allI impI)
    fix k assume k: "k < length (j # js)"
    show "?out ! ((j # js) ! k) = (rs ! ((j # js) ! k))\<lparr>rank := Some (idxs ! k)\<rparr>"
    proof (cases k)
      case 0
      with ih(3) pre(3,4) show ?thesis by (simp add: idxs)
    next
      case (Suc k')
      with k have k': "k' < length js" by simp
      then have "js ! k' \<noteq> j" using pre(3) by (metis nth_mem)
      with ih(2) k' show ?thesis by (simp add: Suc idxs)
    qed
  qed
  have c: "\<forall>i < length rs. i \<notin> set (j # js) \<longrightarrow> ?out ! i = rs ! i"
    using ih(3) by auto
  from a b c show ?case unfolding out by blast
qed

lemma rank_results_nth:
  "length (rank_results rs) = length rs"
  "k < length rs \<Longrightarrow>
     rank_results rs ! (rank_order rs ! k) = (rs ! (rank_order rs ! k))\<lparr>rank := Some (Suc k)\<rparr>"
proof -
  have pre: "distinct (rank_order rs)" "set (rank_order rs) \<subseteq> {0..<length rs}"
    "length [1..<Suc (length rs)] = length (rank_order rs)"
    by (simp_all add: rank_order_props enumerate_from_one del: upt_Suc)
  from foldl_assign_rank[OF pre]
  have f: "length (rank_results rs) = length rs"
    "\<forall>k < length (rank_order rs). rank_results rs ! (rank_order rs ! k)
        = (rs ! (rank_order rs ! k))\<lparr>rank := Some ([1..<Suc (length rs)] ! k)\<rparr>"
    unfolding rank_results_def by blast+
  show "length (rank_results rs) = length rs" by (rule f(1))
  assume k: "k < length rs"
  then have "[1..<Suc (length rs)] ! k = Suc k" by (rule enumerate_from_one(2))
  with f(2) k show "rank_results rs ! (rank_order rs ! k)
      = (rs ! (rank_order rs ! k))\<lparr>rank := Some (Suc k)\<rparr>"
    by (simp add: rank_order_props)
qed

lemma position_in_order:
  assumes "a < length rs"
  obtains k where "k < length rs" "rank_order rs ! k = a"
proof -
  from assms have "a \<in> set (rank_order rs)" by (simp add: rank_order_props)
  then obtain k where "k < length (rank_order rs)" "rank_order rs ! k = a"
    by (auto simp: in_set_conv_nth)
  then show ?thesis using that by (simp add: rank_order_props)
qed

lemma rank_order_before:
  assumes "ka < kb" "kb < length rs"
  shows "before_in_rank (\<lambda>i. - scores_sum (rs ! i)) (rank_order rs ! ka) (rank_order rs ! kb)"
  using rank_order_sorted[of rs] assms
  by (simp add: sorted_wrt_iff_nth_less rank_order_props)

lemma rank_results_fields:
  assumes "a < length rs"
  shows "scores_sum (rank_results rs ! a) = scores_sum (rs ! a)"
    and "\<exists>k < length rs. rank_order rs ! k = a \<and> rank (rank_results rs ! a) = Some (Suc k)"
proof -
  from assms obtain k where k: "k < length rs" "rank_order rs ! k = a"
    by (rule position_in_order)
  from rank_results_nth(2)[OF k(1)] k(2)
  have "rank_results rs ! a = (rs ! a)\<lparr>rank := Some (Suc k)\<rparr>" by simp
  then show "scores_sum (rank_results rs ! a) = scores_sum (rs ! a)"
    and "\<exists>k < length rs. rank_order rs ! k = a \<and> rank (rank_results rs ! a) = Some (Suc k)"
    using k by auto
qed

lemma rank_strict:
  assumes "a < length rs" "b < length rs" "a \<noteq> b"
    and "before_in_rank (\<lambda>i. - scores_sum (rs ! i)) a b"
  shows "the (rank (rank_results rs ! a)) < the (rank (rank_results rs ! b))"
proof -
  from rank_results_fields(2)[OF assms(1)] obtain ka where ka: "ka < length rs"
    "rank_order rs ! ka = a" "rank (rank_results rs ! a) = Some (Suc ka)" by blast
  from rank_results_fields(2)[OF assms(2)] obtain kb where kb: "kb < length rs"
    "rank_order rs ! kb = b" "rank (rank_results rs ! b) = Some (Suc kb)" by blast
  have "ka < kb"
  proof (rule ccontr)
    assume "\<not> ka < kb"
    with assms(3) ka(2) kb(2) have "kb < ka" by (cases "ka = kb") auto
    from rank_order_before[OF this ka(1)] ka(2) kb(2)
    have "before_in_rank (\<lambda>i. - scores_sum (rs ! i)) b a" by simp
    with assms(4) show False by (auto simp: before_in_rank_def)
  qed
  with ka(3) kb(3) show ?thesis by simp
qed

lemma ranks_permutation:
  "mset (map rank (rank_results rs)) = mset (map Some [1..<Suc (length rs)])"
proof -
  let ?n = "length rs"
  let ?r = "\<lambda>j. rank (rank_results rs ! j)"
  have "map ?r (rank_order rs) = map Some [1..<Suc ?n]"
  proof (rule nth_equalityI)
    show "length (map ?r (rank_order rs)) = length (map Some [1..<Suc ?n])"
      by (simp add: rank_order_props enumerate_from_one del: upt_Suc)
  next
    fix k assume "k < length (map ?r (rank_order rs))"
    then have k: "k < ?n" by (simp add: rank_order_props)
    then have "[1..<Suc ?n] ! k = Suc k" by (rule enumerate_from_one(2))
    with k rank_results_nth(2)[OF k]
    show "map ?r (rank_order rs) ! k = map Some [1..<Suc ?n] ! k"
      by (simp add: rank_order_props enumerate_from_one del: upt_Suc)
  qed
  moreover have "mset (rank_order rs) = mset [0..<?n]"
    by (simp add: rank_order_def)
  then have "mset (map ?r (rank_order rs)) = mset (map ?r [0..<?n])"
    by (metis mset_map)
  moreover have "map ?r [0..<?n] = map rank (rank_results rs)"
    by (rule nth_equalityI) (simp_all add: rank_results_nth(1))
  ultimately show ?thesis by simp
qed

text \<open>
  Claim C6.  After the ranking loop over \<open>n\<close> records the list has the same length, the
  rank values are a permutation of \<open>1..n\<close>, the sums are untouched, and a record with a
  strictly greater sum has a strictly smaller rank.
\<close>

theorem ranks_descending_permutation:
  "length (rank_results results) = length results \<and>
   mset (map rank (rank_results results)) = mset (map Some [1..<Suc (length results)]) \<and>
   (a < length results \<and> b < length results
      \<and> scores_sum (results ! a) > scores_sum (results ! b) \<longrightarrow>
    scores_sum (rank_results results ! a) = scores_sum (results ! a) \<and>
    scores_sum (rank_results results ! b) = scores_sum (results ! b) \<and>
    the (rank (rank_results results ! a)) < the (rank (rank_results results ! b)))"
proof (intro conjI impI)
  show "length (rank_results results) = length results" by (rule rank_results_nth(1))
  show "mset (map rank (rank_results results)) = mset (map Some [1..<Suc (length results)])"
    by (rule ranks_permutation)
next
  assume h: "a < length results \<and> b < length results
      \<and> scores_sum (results ! a) > scores_sum (results ! b)"
  then show "scores_sum (rank_results results ! a) = scores_sum (results ! a)"
    and "scores_sum (rank_results results ! b) = scores_sum (results ! b)"
    by (simp_all add: rank_results_fields(1))
  from h have "a \<noteq> b" by auto
  moreover from h have "before_in_rank (\<lambda>i. - scores_sum (results ! i)) a b"
    by (simp add: before_in_rank_def)
  ultimately show "the (rank (rank_results results ! a)) < the (rank (rank_results results ! b))"
    using h by (intro rank_strict) simp_all
qed

text \<open>On the three results: the second has the greatest sum and rank 1.\<close>

theorem ranks_descending_permutation_witness:
  "(1::nat) < length three_results \<and> (0::nat) < length three_results \<and>
   scores_sum (three_results ! 1) > scores_sum (three_results ! 0) \<and>
   map rank (rank_results three_results) = [Some 2, Some 1, Some 3] \<and>
   the (rank (rank_results three_results ! 1)) < the (rank (rank_results three_results ! 0))"
proof -
  have a: "(1::nat) < length three_results \<and> (0::nat) < length three_results"
    by (simp add: three_results_def)
  have b: "scores_sum (three_results ! 1) > scores_sum (three_results ! 0)"
    by (simp add: three_results_def make_result_def)
  have c: "map rank (rank_results three_results) = [Some 2, Some 1, Some 3]"
    by code_simp
  from a b ranks_descending_permutation[where results = three_results and a = 1 and b = 0]
  have "the (rank (rank_results three_results ! 1)) < the (rank (rank_results three_results ! 0))"
    by blast
  with a b c show ?thesis by blast
qed

lemma insort_key_agree:
  "f x = g x \<Longrightarrow> \<forall>y \<in> set ys. f y = g y \<Longrightarrow> insort_key f x ys = insort_key g x ys"
  by (induction ys) auto

lemma sort_key_agree:
  "\<forall>x \<in> set xs. f x = g x \<Longrightarrow> sort_key f xs = sort_key g xs"
proof (induction xs)
  case Nil
  show ?case by simp
next
  case (Cons x xs)
  then have "sort_key f xs = sort_key g xs" by simp
  moreover have "insort_key f x (sort_key g xs) = insort_key g x (sort_key g xs)"
    using Cons.prems by (intro insort_key_agree) simp_all
  ultimately show ?case by simp
qed

lemma rank_order_agree:
  assumes "map scores_sum rs = map scores_sum rs'"
  shows "rank_order rs = rank_order rs'"
proof -
  from assms have len: "length rs = length rs'" by (metis length_map)
  have "\<forall>i \<in> set [0..<length rs]. - scores_sum (rs ! i) = - scores_sum (rs' ! i)"
  proof
    fix i assume "i \<in> set [0..<length rs]"
    then have i: "i < length rs" by simp
    from assms have "map scores_sum rs ! i = map scores_sum rs' ! i" by simp
    with i len show "- scores_sum (rs ! i) = - scores_sum (rs' ! i)" by simp
  qed
  then show ?thesis
    unfolding rank_order_def len[symmetric] by (rule sort_key_agree)
qed

lemma ranks_depend_on_sums:
  assumes "map scores_sum rs = map scores_sum rs'"
  shows "map rank (rank_results rs) = map rank (rank_results rs')"
proof (rule nth_equalityI)
  from assms have len: "length rs = length rs'" by (metis length_map)
  then show "length (map rank (rank_results rs)) = length (map rank (rank_results rs'))"
    by (simp add: rank_results_nth(1))
  fix a assume "a < length (map rank (rank_results rs))"
  then have a: "a < length rs" by (simp add: rank_results_nth(1))
  then obtain k where k: "k < length rs" "rank_order rs ! k = a"
    by (rule position_in_order)
  from k have k': "k < length rs'" "rank_order rs' ! k = a"
    using len rank_order_agree[OF assms] by simp_all
  from rank_results_nth(2)[OF k(1)] k(2)
  have "rank (rank_results rs ! a) = Some (Suc k)" by simp
  moreover from rank_results_nth(2)[OF k'(1)] k'(2)
  have "rank (rank_results rs' ! a) = Some (Suc k)" by simp
  ultimately show "map rank (rank_results rs) ! a = map rank (rank_results rs') ! a"
    using a len by (simp add: rank_results_nth(1))
qed

lemma rank_results_idem:
  "rank_results (rank_results rs) = rank_results rs"
proof (rule nth_equalityI)
  show len: "length (rank_results (rank_results rs)) = length (rank_results rs)"
    by (simp add: rank_results_nth(1))
  have sums: "map scores_sum (rank_results rs) = map scores_sum rs"
    by (rule nth_equalityI) (simp_all add: rank_results_nth(1) rank_results_fields(1))
  fix a assume "a < length (rank_results (rank_results rs))"
  then have a: "a < length rs" by (simp add: rank_results_nth(1))
  then obtain k where k: "k < length rs" "rank_order rs ! k = a"
    by (rule position_in_order)
  from k have k': "k < length (rank_results rs)" "rank_order (rank_results rs) ! k = a"
    using rank_order_agree[OF sums] by (simp_all add: rank_results_nth(1))
  from rank_results_nth(2)[OF k(1)] k(2)
  have one: "rank_results rs ! a = (rs ! a)\<lparr>rank := Some (Suc k)\<rparr>" by simp
  from rank_results_nth(2)[OF k'(1)] k'(2)
  have "rank_results (rank_results rs) ! a = (rank_results rs ! a)\<lparr>rank := Some (Suc k)\<rparr>"
    by simp
  with one show "rank_results (rank_results rs) ! a = rank_results rs ! a" by simp
qed

lemma ties_by_position:
  assumes "a < b" "b < length rs" "scores_sum (rs ! a) = scores_sum (rs ! b)"
  shows "the (rank (rank_results rs ! a)) < the (rank (rank_results rs ! b))"
proof -
  from assms have "before_in_rank (\<lambda>i. - scores_sum (rs ! i)) a b"
    by (simp add: before_in_rank_def)
  with assms show ?thesis by (intro rank_strict) simp_all
qed

subsection \<open>Rounding to a double\<close>

lemma log2_floor_le:
  assumes "0 < x"
  shows "2 powi (log2_floor x) \<le> x"
proof (cases "1 \<le> x")
  case True
  then have pos: "0 < \<lfloor>x\<rfloor>" by linarith
  from bitlen_bounds[OF pos] have "2 ^ nat (bitlen \<lfloor>x\<rfloor> - 1) \<le> \<lfloor>x\<rfloor>" ..
  then have "(2::rat) ^ nat (bitlen \<lfloor>x\<rfloor> - 1) \<le> of_int \<lfloor>x\<rfloor>"
    by (metis of_int_le_iff of_int_numeral of_int_power)
  also have "\<dots> \<le> x" by simp
  finally have "(2::rat) ^ nat (bitlen \<lfloor>x\<rfloor> - 1) \<le> x" .
  moreover have "0 \<le> bitlen \<lfloor>x\<rfloor> - 1"
    using pos by (simp add: bitlen_alt_def)
  ultimately show ?thesis
    using True by (simp add: log2_floor_def power_int_def)
next
  case False
  with assms have y: "1 < 1 / x" by simp
  let ?c = "\<lceil>1 / x\<rceil> - 1"
  from y have pos: "0 < ?c" by linarith
  from bitlen_bounds[OF pos] have "?c < 2 ^ nat (bitlen ?c)" ..
  then have "\<lceil>1 / x\<rceil> \<le> 2 ^ nat (bitlen ?c)" by simp
  then have "(of_int \<lceil>1 / x\<rceil> :: rat) \<le> 2 ^ nat (bitlen ?c)"
    by (metis of_int_le_iff of_int_numeral of_int_power)
  moreover have "1 / x \<le> of_int \<lceil>1 / x\<rceil>" by simp
  ultimately have "1 / x \<le> 2 ^ nat (bitlen ?c)" by linarith
  then have "1 / 2 ^ nat (bitlen ?c) \<le> x"
    using assms by (simp add: field_simps)
  moreover have "(2::rat) powi (- bitlen ?c) = 1 / 2 ^ nat (bitlen ?c)"
    using bitlen_nonneg[of ?c] by (simp add: power_int_minus power_int_def field_simps)
  ultimately show ?thesis
    using False by (simp add: log2_floor_def)
qed

lemma log2_floor_less:
  assumes "0 < x"
  shows "x < 2 powi (log2_floor x + 1)"
proof (cases "1 \<le> x")
  case True
  then have pos: "0 < \<lfloor>x\<rfloor>" by linarith
  from bitlen_bounds[OF pos] have "\<lfloor>x\<rfloor> < 2 ^ nat (bitlen \<lfloor>x\<rfloor>)" ..
  then have "\<lfloor>x\<rfloor> + 1 \<le> 2 ^ nat (bitlen \<lfloor>x\<rfloor>)" by simp
  then have "(of_int (\<lfloor>x\<rfloor> + 1) :: rat) \<le> 2 ^ nat (bitlen \<lfloor>x\<rfloor>)"
    by (metis of_int_le_iff of_int_numeral of_int_power)
  moreover have "x < of_int (\<lfloor>x\<rfloor> + 1)" by linarith
  ultimately have "x < 2 ^ nat (bitlen \<lfloor>x\<rfloor>)" by linarith
  moreover have "(2::rat) powi (bitlen \<lfloor>x\<rfloor>) = 2 ^ nat (bitlen \<lfloor>x\<rfloor>)"
    using bitlen_nonneg[of "\<lfloor>x\<rfloor>"] by (simp add: power_int_def)
  ultimately show ?thesis
    using True by (simp add: log2_floor_def)
next
  case False
  with assms have y: "1 < 1 / x" by simp
  let ?c = "\<lceil>1 / x\<rceil> - 1"
  from y have pos: "0 < ?c" by linarith
  have b1: "1 \<le> bitlen ?c" using pos by (simp add: bitlen_alt_def)
  from bitlen_bounds[OF pos] have "2 ^ nat (bitlen ?c - 1) \<le> ?c" ..
  then have "(2::rat) ^ nat (bitlen ?c - 1) \<le> of_int ?c"
    by (metis of_int_le_iff of_int_numeral of_int_power)
  moreover have "of_int ?c < 1 / x" by linarith
  ultimately have "(2::rat) ^ nat (bitlen ?c - 1) < 1 / x" by linarith
  then have "x < 1 / 2 ^ nat (bitlen ?c - 1)"
    using assms by (simp add: field_simps)
  moreover have "(2::rat) powi (- bitlen ?c + 1) = 1 / 2 ^ nat (bitlen ?c - 1)"
  proof -
    have "- bitlen ?c + 1 = - int (nat (bitlen ?c - 1))" using b1 by simp
    then show ?thesis by (simp only: power_int_minus power_int_of_nat inverse_eq_divide)
  qed
  ultimately show ?thesis
    using False by (simp add: log2_floor_def)
qed

lemma finite_double_iff: "finite_double r \<longleftrightarrow> \<bar>r\<bar> < 2 powi 1024"
proof (cases "r = 0")
  case True
  have "(0::rat) < 2 powi 1024" by (rule zero_less_power_int) simp
  with True show ?thesis by (simp only: finite_double_def abs_zero) simp
next
  case False
  then have r: "0 < \<bar>r\<bar>" by simp
  show ?thesis
  proof
    assume "finite_double r"
    with False have "log2_floor \<bar>r\<bar> + 1 \<le> 1024" by (simp add: finite_double_def)
    then have "(2::rat) powi (log2_floor \<bar>r\<bar> + 1) \<le> 2 powi 1024"
      by (intro power_int_increasing) simp_all
    with log2_floor_less[OF r] show "\<bar>r\<bar> < 2 powi 1024" by (rule less_le_trans)
  next
    assume a: "\<bar>r\<bar> < 2 powi 1024"
    have "log2_floor \<bar>r\<bar> < 1024"
    proof (rule ccontr)
      assume "\<not> log2_floor \<bar>r\<bar> < 1024"
      then have "(2::rat) powi 1024 \<le> 2 powi (log2_floor \<bar>r\<bar>)"
        by (intro power_int_increasing) simp_all
      also have "\<dots> \<le> \<bar>r\<bar>" by (rule log2_floor_le[OF r])
      finally show False using a leD by blast
    qed
    then show "finite_double r" by (simp only: finite_double_def) simp
  qed
qed

lemma round_half_even_error: "\<bar>of_int (round_half_even y) - y\<bar> \<le> 1 / 2"
proof -
  have "of_int \<lfloor>y\<rfloor> \<le> y" "y < of_int \<lfloor>y\<rfloor> + 1" by linarith+
  then show ?thesis
    by (auto simp: round_half_even_def Let_def)
qed

lemma round_half_even_of_int [simp]: "round_half_even (of_int k) = k"
  by (simp add: round_half_even_def)

lemma smallest_normal_pos: "0 < smallest_normal"
  unfolding smallest_normal_def by (rule zero_less_power_int) simp

lemma smallest_normal_le: "smallest_normal \<le> 1 / 2 ^ 53"
proof -
  have "(2::rat) powi (- 1022) \<le> 2 powi (- 53)"
    by (rule power_int_increasing) simp_all
  also have "(2::rat) powi (- 53) = 1 / 2 ^ 53"
    by (simp add: power_int_minus field_simps)
  finally show ?thesis unfolding smallest_normal_def .
qed

lemma round_double_pos_error:
  assumes "smallest_normal \<le> x"
  shows "\<bar>round_double_pos x - x\<bar> \<le> x / 2 ^ 53"
proof -
  have x: "0 < x"
    using assms smallest_normal_pos by linarith
  define e where "e = max (log2_floor x - 52) (- 1074)"
  define p where "p = (2::rat) powi e"
  have p: "0 < p" by (simp add: p_def)
  have "p * 2 ^ 52 = 2 powi (e + 52)"
    by (simp add: p_def power_int_add)
  also have "\<dots> \<le> x"
  proof (cases "log2_floor x - 52 \<le> - 1074")
    case True
    then have "e + 52 = - 1022" by (simp add: e_def)
    then have "(2::rat) powi (e + 52) = smallest_normal"
      by (simp only: smallest_normal_def)
    with assms show ?thesis by (simp only:)
  next
    case False
    then have "e + 52 = log2_floor x" by (simp add: e_def)
    with log2_floor_le[OF x] show ?thesis by (simp only:)
  qed
  finally have scale: "p * 2 ^ 52 \<le> x" .
  have "\<bar>of_int (round_half_even (x / p)) - x / p\<bar> \<le> 1 / 2"
    by (rule round_half_even_error)
  then have "\<bar>of_int (round_half_even (x / p)) - x / p\<bar> * p \<le> 1 / 2 * p"
    using p by (intro mult_right_mono) simp_all
  moreover have "\<bar>of_int (round_half_even (x / p)) - x / p\<bar> * p
      = \<bar>of_int (round_half_even (x / p)) * p - x\<bar>"
  proof -
    have "\<bar>of_int (round_half_even (x / p)) - x / p\<bar> * p
        = \<bar>(of_int (round_half_even (x / p)) - x / p) * p\<bar>"
      using p by (simp add: abs_mult)
    also have "(of_int (round_half_even (x / p)) - x / p) * p
        = of_int (round_half_even (x / p)) * p - x"
      using p by (simp add: algebra_simps)
    finally show ?thesis .
  qed
  ultimately have "\<bar>of_int (round_half_even (x / p)) * p - x\<bar> \<le> p / 2" by simp
  also have "p / 2 \<le> x / 2 ^ 53"
    using scale by (simp add: field_simps)
  finally show ?thesis
    by (simp add: round_double_pos_def Let_def e_def[symmetric] p_def[symmetric])
qed

lemma round_double_error:
  assumes "smallest_normal \<le> x"
  shows "\<bar>round_double x - x\<bar> \<le> x / 2 ^ 53"
proof -
  have "0 < x"
    using assms smallest_normal_pos by linarith
  then show ?thesis
    using round_double_pos_error[OF assms] by (simp add: round_double_def)
qed

lemma round_double_of_nat:
  assumes "n < 2 ^ 53"
  shows "round_double (of_nat n) = of_nat n"
proof (cases "n = 0")
  case True
  then show ?thesis by (simp add: round_double_def)
next
  case False
  then have pos: "0 < int n" by simp
  define L where "L = bitlen (int n) - 1"
  from bitlen_bounds[OF pos] have lo: "2 ^ nat L \<le> int n" by (simp add: L_def)
  have L0: "0 \<le> L" using pos by (simp add: L_def bitlen_alt_def)
  have L52: "L \<le> 52"
  proof (rule ccontr)
    assume "\<not> L \<le> 52"
    then have "53 \<le> nat L" by simp
    then have "(2::int) ^ 53 \<le> 2 ^ nat L" by (intro power_increasing) simp_all
    from this lo have "(2::int) ^ 53 \<le> int n" by (rule order_trans)
    then have "(2::nat) ^ 53 \<le> n"
      by (simp only: numeral_power_le_of_nat_cancel_iff)
    with assms show False using leD by blast
  qed
  have lf: "log2_floor (of_nat n) = L"
    using False by (simp add: log2_floor_def L_def)
  have e: "max (L - 52) (- 1074) = - int (52 - nat L)"
    using L0 L52 by simp
  have pw: "(2::rat) powi (- int (52 - nat L)) = 1 / 2 ^ (52 - nat L)"
    by (simp add: power_int_minus field_simps)
  have q: "(of_nat n :: rat) / (1 / 2 ^ (52 - nat L)) = of_int (int n * 2 ^ (52 - nat L))"
    by simp
  have "round_double_pos (of_nat n) = of_int (int n * 2 ^ (52 - nat L)) * (1 / 2 ^ (52 - nat L))"
    unfolding round_double_pos_def Let_def lf e pw q round_half_even_of_int ..
  also have "\<dots> = of_nat n" by simp
  finally show ?thesis
    using False by (simp add: round_double_def)
qed

lemma finite_double_small:
  assumes "0 \<le> r" "r \<le> 2 ^ 53"
  shows "finite_double r"
proof (cases "r = 0")
  case True
  then show ?thesis by (simp add: finite_double_def)
next
  case False
  with assms have r: "0 < r" by simp
  have "log2_floor r < 1024"
  proof (rule ccontr)
    assume "\<not> log2_floor r < 1024"
    then have "54 \<le> log2_floor r" by simp
    then have "(2::rat) powi 54 \<le> 2 powi (log2_floor r)"
      by (intro power_int_increasing) simp_all
    also have "\<dots> \<le> r" by (rule log2_floor_le[OF r])
    finally show False using assms(2) by simp
  qed
  with r show ?thesis by (simp add: finite_double_def)
qed

lemma to_double_of_nat:
  assumes "n < 2 ^ 53"
  shows "to_double (of_nat n) = Some (of_nat n)"
proof -
  have "(of_nat n :: rat) \<le> 2 ^ 53"
    using assms by (metis less_imp_le of_nat_le_iff of_nat_numeral of_nat_power)
  then have "finite_double (of_nat n)"
    by (intro finite_double_small) simp_all
  then show ?thesis
    by (simp add: to_double_def round_double_of_nat[OF assms])
qed

lemma percentage_close:
  assumes T: "0 < T" "T < 2 ^ 53" and s: "s \<le> T"
  shows "\<exists>p. percentage s T = Some p
           \<and> \<bar>p - 100 * (of_nat s / of_nat T)\<bar> \<le> of_nat s / of_nat T * rounding_slack"
proof (cases "s = 0")
  case True
  have "finite_double 0" by (simp add: finite_double_def)
  then have "to_double 0 = Some 0" by (simp add: to_double_def round_double_def)
  then have "percentage 0 T = Some 0"
    using T by (simp add: percentage_def to_double_of_nat double_div_def double_mul_def)
  with True show ?thesis by simp
next
  case False
  define u where "u = (1::rat) / 2 ^ 53"
  define x where "x = (of_nat s :: rat) / of_nat T"
  have u: "0 < u" "u \<le> 1" by (simp_all add: u_def)
  have s53: "s < 2 ^ 53" using s T(2) by simp
  have Tr: "(of_nat T :: rat) < 2 ^ 53"
    using T(2) by (metis of_nat_less_iff of_nat_numeral of_nat_power)
  have Tpos: "(0::rat) < of_nat T" using T(1) by simp
  have x1: "x \<le> 1" using s T(1) by (simp add: x_def)
  have "1 / of_nat T \<le> x"
    using False T(1) by (simp add: x_def field_simps)
  moreover have "u < 1 / of_nat T"
    unfolding u_def using Tr Tpos by (simp add: field_simps)
  ultimately have xu: "u \<le> x" by simp
  with u have xpos: "0 < x" by simp
  have sn_u: "smallest_normal \<le> u"
    unfolding u_def by (rule smallest_normal_le)
  with xu have nx: "smallest_normal \<le> x" by simp
  define q where "q = round_double x"
  have "\<bar>q - x\<bar> \<le> x / 2 ^ 53"
    unfolding q_def by (rule round_double_error[OF nx])
  then have qe: "\<bar>q - x\<bar> \<le> x * u" by (simp add: u_def)
  have xu1: "x * u \<le> x" using u xpos by (simp add: mult_left_le)
  have xux: "x * u \<le> u" using u x1 xpos by (simp add: mult_left_le_one_le)
  from qe have q_hi: "q \<le> x + x * u" and q_lo: "x - x * u \<le> q" by linarith+
  have half: "u \<le> 1 / 2" by (simp add: u_def)
  have "x * u \<le> x * (1 / 2)"
    using half xpos by (intro mult_left_mono) simp_all
  with q_lo have q_half: "x / 2 \<le> q" by simp
  with xpos have qpos: "0 < q" by linarith
  have q2: "q \<le> 2" using q_hi xu1 x1 by linarith
  have "finite_double q"
    using qpos q2 by (intro finite_double_small) simp_all
  then have dq: "double_div (of_nat s) (of_nat T) = Some q"
    using T(1) by (simp add: double_div_def to_double_def q_def x_def)
  define y where "y = q * 100"
  have "x \<le> y" using q_half xpos by (simp add: y_def)
  with nx have ny: "smallest_normal \<le> y" by simp
  have ypos: "0 < y" using qpos by (simp add: y_def)
  define p where "p = round_double y"
  have "\<bar>p - y\<bar> \<le> y / 2 ^ 53"
    unfolding p_def by (rule round_double_error[OF ny])
  then have pe: "\<bar>p - y\<bar> \<le> y * u" by (simp add: u_def)
  have yu: "y * u \<le> y" using u ypos by (simp add: mult_left_le)
  have y200: "y \<le> 200" using q2 by (simp add: y_def)
  from pe yu ypos have "0 \<le> p" "p \<le> 2 * y" by linarith+
  with y200 have "0 \<le> p" "p \<le> 2 ^ 53" by simp_all
  then have "finite_double p" by (rule finite_double_small)
  then have dp: "double_mul q 100 = Some p"
    by (simp add: double_mul_def to_double_def p_def y_def)
  have perc: "percentage s T = Some p"
    by (simp add: percentage_def to_double_of_nat[OF s53] to_double_of_nat[OF T(2)] dq dp)
  have "y * u \<le> (100 * (x + x * u)) * u"
    using q_hi u(1) by (intro mult_right_mono) (simp_all add: y_def)
  with pe have a: "\<bar>p - y\<bar> \<le> 100 * x * u + 100 * x * (u * u)"
    by (simp add: algebra_simps)
  have "y - 100 * x = 100 * (q - x)" by (simp add: y_def algebra_simps)
  then have "\<bar>y - 100 * x\<bar> = \<bar>100\<bar> * \<bar>q - x\<bar>" by (simp only: abs_mult)
  then have "\<bar>y - 100 * x\<bar> = 100 * \<bar>q - x\<bar>" by simp
  with qe have b: "\<bar>y - 100 * x\<bar> \<le> 100 * x * u" by simp
  have "\<bar>p - 100 * x\<bar> \<le> \<bar>p - y\<bar> + \<bar>y - 100 * x\<bar>" by linarith
  with a b have "\<bar>p - 100 * x\<bar> \<le> 100 * x * u + 100 * x * (u * u) + 100 * x * u"
    by linarith
  also have "\<dots> = x * (100 * (2 * u + u * u))" by (simp add: algebra_simps)
  also have "100 * (2 * u + u * u) = rounding_slack"
    by (simp add: rounding_slack_def u_def)
  finally have "\<bar>p - 100 * x\<bar> \<le> x * rounding_slack" .
  with perc show ?thesis by (simp add: x_def)
qed

subsection \<open>Hallucination counts and their summary\<close>

lemma with_total_six: "total_hallucinations (with_total r) = six_counts (with_total r)"
  by (simp add: with_total_def six_counts_def hallucination_types_def)

lemma sum_list_six:
  "\<forall>r \<in> set grp. total_hallucinations r = six_counts r \<Longrightarrow>
   sum_list (map total_hallucinations grp) =
     sum_list (map (\<lambda>r. skipna (counts r UCE)) grp) + sum_list (map (\<lambda>r. skipna (counts r OGE)) grp)
   + sum_list (map (\<lambda>r. skipna (counts r UGE)) grp) + sum_list (map (\<lambda>r. skipna (counts r NNE)) grp)
   + sum_list (map (\<lambda>r. skipna (counts r DTE)) grp) + sum_list (map (\<lambda>r. skipna (counts r MGE)) grp)"
  by (induction grp) (simp_all add: six_counts_def)

lemma six_close:
  fixes p1 p2 p3 p4 p5 p6 x1 x2 x3 x4 x5 x6 c :: rat
  assumes "\<bar>p1 - 100 * x1\<bar> \<le> x1 * c" "\<bar>p2 - 100 * x2\<bar> \<le> x2 * c"
    "\<bar>p3 - 100 * x3\<bar> \<le> x3 * c" "\<bar>p4 - 100 * x4\<bar> \<le> x4 * c"
    "\<bar>p5 - 100 * x5\<bar> \<le> x5 * c" "\<bar>p6 - 100 * x6\<bar> \<le> x6 * c"
    and one: "x1 + x2 + x3 + x4 + x5 + x6 = 1"
  shows "\<bar>p1 + p2 + p3 + p4 + p5 + p6 - 100\<bar> \<le> c"
proof -
  have "x1 * c + x2 * c + x3 * c + x4 * c + x5 * c + x6 * c
      = (x1 + x2 + x3 + x4 + x5 + x6) * c"
    by (simp only: distrib_right)
  then have c: "x1 * c + x2 * c + x3 * c + x4 * c + x5 * c + x6 * c = c"
    by (simp only: one mult_1)
  have "100 * x1 + 100 * x2 + 100 * x3 + 100 * x4 + 100 * x5 + 100 * x6
      = 100 * (x1 + x2 + x3 + x4 + x5 + x6)"
    by (simp only: distrib_left)
  then have h: "100 * x1 + 100 * x2 + 100 * x3 + 100 * x4 + 100 * x5 + 100 * x6 = 100"
    by (simp only: one mult_1_right)
  from assms(1-6) c h show ?thesis by linarith
qed

lemma summarize_group_percentages:
  assumes rows: "\<forall>r \<in> set grp. total_hallucinations r = six_counts r"
    and nz: "total_hallucinations_sum (summarize_group pd key grp) \<noteq> 0"
    and small: "total_hallucinations_sum (summarize_group pd key grp) < 2 ^ 53"
  shows "total_hallucinations_sum (summarize_group pd key grp)
           = type_sum (summarize_group pd key grp) UCE + type_sum (summarize_group pd key grp) OGE
           + type_sum (summarize_group pd key grp) UGE + type_sum (summarize_group pd key grp) NNE
           + type_sum (summarize_group pd key grp) DTE + type_sum (summarize_group pd key grp) MGE"
    and "type_percentage (summarize_group pd key grp) hall \<noteq> None"
    and "\<bar>six_percentages (summarize_group pd key grp) - 100\<bar> \<le> rounding_slack"
proof -
  let ?g = "summarize_group pd key grp"
  let ?s = "\<lambda>hall. sum_list (map (\<lambda>r. skipna (counts r hall)) grp)"
  define T where "T = sum_list (map total_hallucinations grp)"
  have tot: "T = ?s UCE + ?s OGE + ?s UGE + ?s NNE + ?s DTE + ?s MGE"
    unfolding T_def using rows by (rule sum_list_six)
  then show "total_hallucinations_sum ?g = type_sum ?g UCE + type_sum ?g OGE
           + type_sum ?g UGE + type_sum ?g NNE + type_sum ?g DTE + type_sum ?g MGE"
    by (simp add: summarize_group_def T_def)
  from nz have "T \<noteq> 0"
    by (simp only: summarize_group_def T_def summary_row.simps not_False_eq_True)
  then have T0: "0 < T" by simp
  from small have T53: "T < 2 ^ 53" by (simp only: summarize_group_def T_def summary_row.simps)
  have le: "?s hall \<le> T" for hall
    by (cases hall) (simp_all add: tot)
  have pct: "type_percentage ?g hall = percentage (?s hall) T" for hall
    by (simp add: summarize_group_def T_def)
  have close: "\<exists>p. type_percentage ?g hall = Some p
      \<and> \<bar>p - 100 * (of_nat (?s hall) / of_nat T)\<bar> \<le> of_nat (?s hall) / of_nat T * rounding_slack"
    for hall
    unfolding pct by (rule percentage_close[OF T0 T53 le])
  then show "type_percentage ?g hall \<noteq> None" by auto
  have each: "\<bar>the (type_percentage ?g hall) - 100 * (of_nat (?s hall) / of_nat T)\<bar>
      \<le> of_nat (?s hall) / of_nat T * rounding_slack" for hall
    using close[of hall] by auto
  have "(of_nat T :: rat) = of_nat (?s UCE) + of_nat (?s OGE) + of_nat (?s UGE)
      + of_nat (?s NNE) + of_nat (?s DTE) + of_nat (?s MGE)"
    by (simp only: tot of_nat_add)
  moreover have "(of_nat T :: rat) \<noteq> 0" using T0 by simp
  ultimately have one: "(of_nat (?s UCE) / of_nat T :: rat) + of_nat (?s OGE) / of_nat T
      + of_nat (?s UGE) / of_nat T + of_nat (?s NNE) / of_nat T + of_nat (?s DTE) / of_nat T
      + of_nat (?s MGE) / of_nat T = 1"
    by (simp only: add_divide_distrib[symmetric]) simp
  show "\<bar>six_percentages ?g - 100\<bar> \<le> rounding_slack"
    unfolding six_percentages_def
    by (rule six_close[OF each each each each each each one])
qed

lemma analyze_directories_rows:
  assumes "analyze_directories pd read_file tree = Inr (df, summary)"
  shows "set df = with_total ` set (results_of read_file tree)"
    and "summary = create_summary pd df"
  using assms
  by (auto simp: analyze_directories_def Let_def sort_values_def split: if_splits)

text \<open>
  Claim C10 as stated fails in its second half.  For a group with two \<open>[UCE]\<close> and one
  \<open>[MGE]\<close> the script writes the doubles nearest to two thirds and one third of 100,
  that is 66.66666666666666 and 33.33333333333333, and the six percentages add up to
  \<open>100 - 2 ^ - 46\<close>, not to 100.
\<close>

theorem percentages_counterexample:
  "total_hallucinations_sum
     (hd (snd (projr (analyze_directories no_agg thirds_file thirds_tree)))) = 3 \<and>
   map (type_percentage (hd (snd (projr (analyze_directories no_agg thirds_file thirds_tree)))))
       hallucination_types
     = [Some (2345624805922133 / 35184372088832), Some 0, Some 0, Some 0, Some 0,
        Some (2345624805922133 / 70368744177664)] \<and>
   six_percentages (hd (snd (projr (analyze_directories no_agg thirds_file thirds_tree))))
     = 100 - 1 / 2 ^ 46 \<and>
   six_percentages (hd (snd (projr (analyze_directories no_agg thirds_file thirds_tree))))
     \<noteq> 100"
proof -
  let ?g = "hd (snd (projr (analyze_directories no_agg thirds_file thirds_tree)))"
  have a: "total_hallucinations_sum ?g = 3" by code_simp
  have b: "map (type_percentage ?g) hallucination_types
     = [Some (2345624805922133 / 35184372088832), Some 0, Some 0, Some 0, Some 0,
        Some (2345624805922133 / 70368744177664)]" by code_simp
  have c: "six_percentages ?g = 100 - 1 / 2 ^ 46" by code_simp
  then have d: "six_percentages ?g \<noteq> 100" by simp
  from a b c d show ?thesis by blast
qed

text \<open>
  Claim C10, amended.  In every row of the per-file table the total equals the sum of
  the six per-type counts (a count that is missing, for a file that could not be read,
  adds nothing); consequently in every group of the summary the total sum is the sum of
  the six type sums, and where that total is not 0 (and below \<open>2 ^ 53\<close>, so that the
  sums are doubles) each of the six percentages is a number and together they add up to
  100 up to the rounding of the two floating-point operations behind each of them: the
  exact sum of the six written values is within \<open>100 * (2 ^ - 52 + 2 ^ - 106)\<close>, less than
  \<open>2.3e-14\<close>, of 100.
\<close>

theorem totals_and_percentages:
  "analyze_directories pd read_file tree = Inr (df, summary) \<longrightarrow>
     (\<forall>r \<in> set df. total_hallucinations r = six_counts r) \<and>
     (\<forall>g \<in> set summary.
        total_hallucinations_sum g
          = type_sum g UCE + type_sum g OGE + type_sum g UGE
            + type_sum g NNE + type_sum g DTE + type_sum g MGE) \<and>
     (\<forall>g \<in> set summary.
        total_hallucinations_sum g \<noteq> 0 \<and> total_hallucinations_sum g < 2 ^ 53 \<longrightarrow>
        (\<forall>hall. type_percentage g hall \<noteq> None) \<and>
        \<bar>six_percentages g - 100\<bar> \<le> rounding_slack)"
proof (intro impI conjI)
  assume a: "analyze_directories pd read_file tree = Inr (df, summary)"
  show rows: "\<forall>r \<in> set df. total_hallucinations r = six_counts r"
    using analyze_directories_rows(1)[OF a] by (auto simp: with_total_six)
  have grp: "\<exists>key grp. g = summarize_group pd key grp
      \<and> (\<forall>r \<in> set grp. total_hallucinations r = six_counts r)"
    if "g \<in> set summary" for g
  proof -
    from that analyze_directories_rows(2)[OF a]
    obtain key where "g = summarize_group pd key
        (filter (\<lambda>r. (learning_model r, model r) = key) df)"
      by (auto simp: create_summary_def)
    moreover have "\<forall>r \<in> set (filter (\<lambda>r. (learning_model r, model r) = key) df).
        total_hallucinations r = six_counts r"
      using rows by simp
    ultimately show ?thesis by blast
  qed
  show "\<forall>g \<in> set summary.
        total_hallucinations_sum g
          = type_sum g UCE + type_sum g OGE + type_sum g UGE
            + type_sum g NNE + type_sum g DTE + type_sum g MGE"
  proof
    fix g assume "g \<in> set summary"
    from grp[OF this] obtain key grp where g: "g = summarize_group pd key grp"
      "\<forall>r \<in> set grp. total_hallucinations r = six_counts r" by blast
    have "sum_list (map total_hallucinations grp) =
        sum_list (map (\<lambda>r. skipna (counts r UCE)) grp)
      + sum_list (map (\<lambda>r. skipna (counts r OGE)) grp)
      + sum_list (map (\<lambda>r. skipna (counts r UGE)) grp)
      + sum_list (map (\<lambda>r. skipna (counts r NNE)) grp)
      + sum_list (map (\<lambda>r. skipna (counts r DTE)) grp)
      + sum_list (map (\<lambda>r. skipna (counts r MGE)) grp)"
      using g(2) by (rule sum_list_six)
    then show "total_hallucinations_sum g
          = type_sum g UCE + type_sum g OGE + type_sum g UGE
            + type_sum g NNE + type_sum g DTE + type_sum g MGE"
      by (simp add: g(1) summarize_group_def)
  qed
  show "\<forall>g \<in> set summary.
        total_hallucinations_sum g \<noteq> 0 \<and> total_hallucinations_sum g < 2 ^ 53 \<longrightarrow>
        (\<forall>hall. type_percentage g hall \<noteq> None) \<and>
        \<bar>six_percentages g - 100\<bar> \<le> rounding_slack"
  proof (intro ballI impI)
    fix g assume "g \<in> set summary"
      and h: "total_hallucinations_sum g \<noteq> 0 \<and> total_hallucinations_sum g < 2 ^ 53"
    from grp[OF this(1)] obtain key grp where g: "g = summarize_group pd key grp"
      "\<forall>r \<in> set grp. total_hallucinations r = six_counts r" by blast
    from h have nz: "total_hallucinations_sum (summarize_group pd key grp) \<noteq> 0"
      and small: "total_hallucinations_sum (summarize_group pd key grp) < 2 ^ 53"
      unfolding g(1) by blast+
    from summarize_group_percentages(2,3)[OF g(2) nz small]
    show "(\<forall>hall. type_percentage g hall \<noteq> None)
        \<and> \<bar>six_percentages g - 100\<bar> \<le> rounding_slack"
      unfolding g(1) by blast
  qed
qed

text \<open>The tree with three files: totals 3, 1 and 0, and shares 50, 25 and 25.\<close>

theorem totals_and_percentages_witness:
  "analyze_directories no_agg two_files small_tree
     = Inr (projr (analyze_directories no_agg two_files small_tree)) \<and>
   map total_hallucinations (fst (projr (analyze_directories no_agg two_files small_tree)))
     = [3, 1, 0] \<and>
   map six_counts (fst (projr (analyze_directories no_agg two_files small_tree))) = [3, 1, 0] \<and>
   hd (snd (projr (analyze_directories no_agg two_files small_tree)))
     \<in> set (snd (projr (analyze_directories no_agg two_files small_tree))) \<and>
   total_hallucinations_sum (hd (snd (projr (analyze_directories no_agg two_files small_tree))))
     = 4 \<and>
   map (type_percentage (hd (snd (projr (analyze_directories no_agg two_files small_tree)))))
       hallucination_types = [Some 50, Some 25, Some 0, Some 0, Some 0, Some 25] \<and>
   \<bar>six_percentages (hd (snd (projr (analyze_directories no_agg two_files small_tree)))) - 100\<bar>
     \<le> rounding_slack"
proof -
  let ?x = "analyze_directories no_agg two_files small_tree"
  have "\<not> isl ?x" by code_simp
  then have a: "?x = Inr (fst (projr ?x), snd (projr ?x))" by (cases ?x) auto
  have b: "map total_hallucinations (fst (projr ?x)) = [3, 1, 0]" by code_simp
  have c: "total_hallucinations_sum (hd (snd (projr ?x))) = 4" by code_simp
  have d: "map (type_percentage (hd (snd (projr ?x)))) hallucination_types
     = [Some 50, Some 25, Some 0, Some 0, Some 0, Some 25]" by code_simp
  have e: "length (snd (projr ?x)) = 2" by code_simp
  then have f: "hd (snd (projr ?x)) \<in> set (snd (projr ?x))"
    by (cases "snd (projr ?x)") auto
  have c': "total_hallucinations_sum (hd (snd (projr ?x))) \<noteq> 0
     \<and> total_hallucinations_sum (hd (snd (projr ?x))) < 2 ^ 53"
    by (simp only: c) simp
  note t = totals_and_percentages[where pd = no_agg and read_file = two_files
     and tree = small_tree and df = "fst (projr ?x)" and summary = "snd (projr ?x)"]
  from t a have rows: "\<forall>r \<in> set (fst (projr ?x)). total_hallucinations r = six_counts r"
    by blast
  then have "map six_counts (fst (projr ?x)) = map total_hallucinations (fst (projr ?x))"
    by simp
  with b have g: "map six_counts (fst (projr ?x)) = [3, 1, 0]" by simp
  from t a f c' have h: "\<bar>six_percentages (hd (snd (projr ?x))) - 100\<bar> \<le> rounding_slack"
    by blast
  from a b g f c d h show ?thesis by simp
qed

lemma summarize_group_input:
  assumes "map summary_input grp = map summary_input grp'"
  shows "summarize_group pd key grp = summarize_group pd key grp'"
proof -
  have c: "map (\<lambda>r. counts r hall) grp = map (\<lambda>r. counts r hall) grp'" for hall
    using arg_cong[OF assms, of "map (\<lambda>x. fst (snd (snd x)) hall)"]
    by (simp add: summary_input_def comp_def)
  have s: "map (\<lambda>r. skipna (counts r hall)) grp = map (\<lambda>r. skipna (counts r hall)) grp'" for hall
    using arg_cong[OF c[of hall], of "map skipna"] by (simp add: comp_def)
  have t: "map total_hallucinations grp = map total_hallucinations grp'"
    using arg_cong[OF assms, of "map (\<lambda>x. snd (snd (snd x)))"]
    by (simp add: summary_input_def comp_def)
  have t': "map (\<lambda>r. Some (total_hallucinations r)) grp
      = map (\<lambda>r. Some (total_hallucinations r)) grp'"
    using arg_cong[OF t, of "map Some"] by (simp add: comp_def)
  have l: "length grp = length grp'" using assms by (metis length_map)
  show ?thesis
    unfolding summarize_group_def by (simp only: c s t t' l)
qed

lemma create_summary_input:
  assumes "map summary_input df = map summary_input df'"
  shows "create_summary pd df = create_summary pd df'"
proof -
  have keys: "map (\<lambda>r. (learning_model r, model r)) df = map (\<lambda>r. (learning_model r, model r)) df'"
    using arg_cong[OF assms, of "map (\<lambda>x. (fst x, fst (snd x)))"]
    by (simp add: summary_input_def comp_def)
  have grp: "map summary_input (filter (\<lambda>r. (learning_model r, model r) = key) df)
      = map summary_input (filter (\<lambda>r. (learning_model r, model r) = key) df')" for key
  proof -
    have "map summary_input (filter (\<lambda>r. (learning_model r, model r) = key) d)
        = filter (\<lambda>x. (fst x, fst (snd x)) = key) (map summary_input d)" for d
      by (simp add: filter_map comp_def summary_input_def)
    then show ?thesis by (simp only: assms)
  qed
  show ?thesis
    unfolding create_summary_def keys
    by (rule map_cong[OF refl]) (rule summarize_group_input[OF grp])
qed

text \<open>
  Claim C7.  Ranking and aggregation are functions of the record sequence and keep no
  state between runs.  What makes a second run give the same rows: running the ranking
  loop again over records it has already ranked changes nothing; the ranks depend only
  on the sequence of sums; records with equal sums are always ranked in their input
  order; and the summary rows (sums, means, standard deviations, counts, percentages)
  depend only on the grouping keys and count columns of the rows, in their order.
\<close>

theorem ranking_and_summary_determined:
  "rank_results (rank_results results) = rank_results results \<and>
   (map scores_sum results = map scores_sum results' \<longrightarrow>
      map rank (rank_results results) = map rank (rank_results results')) \<and>
   (a < b \<and> b < length results \<and> scores_sum (results ! a) = scores_sum (results ! b) \<longrightarrow>
      the (rank (rank_results results ! a)) < the (rank (rank_results results ! b))) \<and>
   (map summary_input df = map summary_input df' \<longrightarrow>
      create_summary pd df = create_summary pd df')"
proof (intro conjI impI)
  show "rank_results (rank_results results) = rank_results results"
    by (rule rank_results_idem)
  show "map rank (rank_results results) = map rank (rank_results results')"
    if "map scores_sum results = map scores_sum results'"
    using that by (rule ranks_depend_on_sums)
  show "the (rank (rank_results results ! a)) < the (rank (rank_results results ! b))"
    if "a < b \<and> b < length results \<and> scores_sum (results ! a) = scores_sum (results ! b)"
    using that by (intro ties_by_position) simp_all
  show "create_summary pd df = create_summary pd df'"
    if "map summary_input df = map summary_input df'"
    using that by (rule create_summary_input)
qed

text \<open>The first and the third of the three results tie; they get the ranks 2 and 3.\<close>

theorem ranking_and_summary_determined_witness:
  "map scores_sum three_results = map scores_sum (rank_results three_results) \<and>
   map rank (rank_results (rank_results three_results)) = [Some 2, Some 1, Some 3] \<and>
   (0::nat) < 2 \<and> 2 < length three_results \<and>
   scores_sum (three_results ! 0) = scores_sum (three_results ! 2) \<and>
   the (rank (rank_results three_results ! 0)) < the (rank (rank_results three_results ! 2)) \<and>
   map summary_input (map (\<lambda>r. r\<lparr>file_name := []\<rparr>) (map with_total (results_of two_files small_tree)))
     = map summary_input (map with_total (results_of two_files small_tree)) \<and>
   create_summary no_agg
       (map (\<lambda>r. r\<lparr>file_name := []\<rparr>) (map with_total (results_of two_files small_tree)))
     = create_summary no_agg (map with_total (results_of two_files small_tree))"
proof -
  let ?df = "map with_total (results_of two_files small_tree)"
  have a: "map scores_sum three_results = map scores_sum (rank_results three_results)"
    by code_simp
  have b: "(0::nat) < 2 \<and> 2 < length three_results
     \<and> scores_sum (three_results ! 0) = scores_sum (three_results ! 2)"
    by code_simp
  have c: "map rank (rank_results three_results) = [Some 2, Some 1, Some 3]"
    by code_simp
  have d: "map summary_input (map (\<lambda>r. r\<lparr>file_name := []\<rparr>) ?df) = map summary_input ?df"
    by (simp add: summary_input_def comp_def)
  note t = ranking_and_summary_determined
    [where results = three_results and results' = "rank_results three_results"
       and a = 0 and b = 2 and pd = no_agg and df = "map (\<lambda>r. r\<lparr>file_name := []\<rparr>) ?df"
       and df' = ?df]
  from t a have e: "map rank (rank_results three_results)
      = map rank (rank_results (rank_results three_results))" by blast
  from t b have f: "the (rank (rank_results three_results ! 0))
      < the (rank (rank_results three_results ! 2))" by blast
  from t d have g: "create_summary no_agg (map (\<lambda>r. r\<lparr>file_name := []\<rparr>) ?df)
      = create_summary no_agg ?df" by blast
  from a b c d e f g show ?thesis by simp
qed

end
